theory Spec2Isabelle
  imports Main
begin

section \<open>Exceptions, child processes and the observable world\<close>

text \<open>
  The build script is Python. Every exception that the modelled code can raise is a
  constructor of \<open>error\<close>; a function that may raise returns \<open>error + 'a\<close> with
  \<open>Inl\<close> for the exception. \<open>RuntimeError\<close> carries its message, as the source
  builds it with an f-string.
\<close>

datatype error =
    RuntimeError string
  | CalledProcessError
  | FileNotFoundError
  | FileExistsError
  | ValueError
  | TypeError
  | NameError

text \<open>
  What one child process does, as the Process Runner of the build sees it.
  \<open>returncode\<close> is the exit status, known once the child has been waited for.
  \<open>early_returncode\<close> is the value of the \<open>returncode\<close> attribute of an asyncio
  process object read directly after \<open>create_subprocess_exec\<close> has returned and
  before any \<open>wait\<close>: \<open>None\<close> while the child has not been reaped.
  \<open>stdout\<close> and \<open>stderr\<close> are the decoded texts of the two streams.
\<close>

record proc =
  early_returncode :: "int option"
  returncode :: int
  stdout :: string
  stderr :: string

text \<open>
  The runner maps an argument vector to the behaviour of the child; \<open>None\<close> means
  that the executable cannot be started (Python raises \<open>FileNotFoundError\<close>).
\<close>

type_synonym runner = "string list \<Rightarrow> proc option"

text \<open>
  The effects of the script: the argument vectors handed to the runner, the lines
  written by \<open>print\<close>, the directories that exist (each identified by the path
  string it was created under), and the current working directory \<open>os.getcwd()\<close>.
\<close>

record world =
  launched :: "string list list"
  printed :: "string list"
  dirs :: "string set"
  cwd :: string

definition launch :: "runner \<Rightarrow> string list \<Rightarrow> world \<Rightarrow> proc option \<times> world" where
  "launch run command w = (run command, w\<lparr>launched := launched w @ [command]\<rparr>)"

definition print :: "string \<Rightarrow> world \<Rightarrow> world" where
  "print line w = w\<lparr>printed := printed w @ [line]\<rparr>"

subsection \<open>Python string helpers\<close>

text \<open>\<open>sep.join(xs)\<close>.\<close>

fun join :: "string \<Rightarrow> string list \<Rightarrow> string" where
  "join sep [] = []"
| "join sep [x] = x"
| "join sep (x # y # ys) = x @ sep @ join sep (y # ys)"

text \<open>The ASCII characters that \<open>str.split()\<close> treats as white space.\<close>

definition isspace :: "char \<Rightarrow> bool" where
  "isspace c = (of_char c \<in> {9, 10, 11, 12, 13, 28, 29, 30, 31, 32 :: nat})"

text \<open>
  \<open>s.split()\<close> without arguments: the maximal runs of non-space characters.
  The second argument is the word read so far.
\<close>

fun split_ws :: "string \<Rightarrow> string \<Rightarrow> string list" where
  "split_ws [] cur = (if cur = [] then [] else [cur])"
| "split_ws (c # cs) cur =
     (if isspace c then (if cur = [] then split_ws cs [] else cur # split_ws cs [])
      else split_ws cs (cur @ [c]))"

definition split :: "string \<Rightarrow> string list" where
  "split s = split_ws s []"


text \<open>\<open>s.startswith(p)\<close> and \<open>s.endswith(p)\<close>.\<close>

definition startswith :: "string \<Rightarrow> string \<Rightarrow> bool" where
  "startswith s p = (take (length p) s = p)"

definition endswith :: "string \<Rightarrow> string \<Rightarrow> bool" where
  "endswith s p = startswith (rev s) (rev p)"

text \<open>\<open>p in s\<close> for strings: \<open>p\<close> occurs in \<open>s\<close> as a contiguous substring.\<close>

fun contains :: "string \<Rightarrow> string \<Rightarrow> bool" where
  "contains [] p = (p = [])"
| "contains (c # cs) p = (startswith (c # cs) p \<or> contains cs p)"

text \<open>
  \<open>s.replace(old, new)\<close>: every non-overlapping occurrence of \<open>old\<close>, found from
  left to right, is replaced by \<open>new\<close>. With an empty \<open>old\<close>, Python inserts
  \<open>new\<close> before every character and at the end.
\<close>

function replace :: "string \<Rightarrow> string \<Rightarrow> string \<Rightarrow> string" where
  "replace old new [] = (if old = [] then new else [])"
| "replace old new (c # cs) =
     (if old = [] then new @ c # replace old new cs
      else if startswith (c # cs) old then new @ replace old new (drop (length old) (c # cs))
      else c # replace old new cs)"
  by pat_completeness auto
termination
  by (relation "measure (\<lambda>(old, new, s). length s)") auto

text \<open>\<open>s.split(sep)\<close> for a one-character separator: never empty.\<close>

fun split_on :: "char \<Rightarrow> string \<Rightarrow> string list" where
  "split_on sep [] = [[]]"
| "split_on sep (c # cs) =
     (if c = sep then [] # split_on sep cs
      else (case split_on sep cs of
              [] \<Rightarrow> [[c]]
            | part # parts \<Rightarrow> (c # part) # parts))"

text \<open>
  \<open>s.rsplit(sep, 1)\<close> for a one-character separator: the text before the last
  separator and the text after it, or the whole string alone when it has no separator.
\<close>

definition rsplit1 :: "char \<Rightarrow> string \<Rightarrow> string list" where
  "rsplit1 sep s =
     (if sep \<in> set s
      then [rev (tl (dropWhile (\<lambda>c. c \<noteq> sep) (rev s))), rev (takeWhile (\<lambda>c. c \<noteq> sep) (rev s))]
      else [s])"

section \<open>Paths: \<open>os.path\<close> on a POSIX host\<close>

text \<open>
  The script calls \<open>os.path.relpath\<close>, \<open>os.path.join\<close> and \<open>os.path.dirname\<close>. They
  are modelled after CPython's \<open>posixpath\<close>, so the development describes the script
  running on a POSIX host.
\<close>

definition isabs :: "string \<Rightarrow> bool" where
  "isabs s = startswith s ''/''"

text \<open>\<open>os.path.join(a, b)\<close>.\<close>

definition path_join :: "string \<Rightarrow> string \<Rightarrow> string" where
  "path_join a b =
     (if startswith b ''/'' then b
      else if a = [] \<or> endswith a ''/'' then a @ b
      else a @ ''/'' @ b)"

text \<open>
  One round of the loop of \<open>normpath\<close> over the components: empty and \<open>.\<close>
  components are dropped, \<open>..\<close> removes the component before it unless there is none
  to remove.
\<close>

definition normpath_step :: "nat \<Rightarrow> string \<Rightarrow> string list \<Rightarrow> string list" where
  "normpath_step initial_slashes part new_comps =
     (if part = [] \<or> part = ''.'' then new_comps
      else if part \<noteq> ''..'' \<or> (initial_slashes = 0 \<and> new_comps = [])
              \<or> (new_comps \<noteq> [] \<and> last new_comps = ''..'')
        then new_comps @ [part]
      else if new_comps \<noteq> [] then butlast new_comps
      else new_comps)"

definition normpath :: "string \<Rightarrow> string" where
  "normpath path =
     (if path = [] then ''.''
      else
        let initial_slashes =
              (if startswith path ''/''
               then (if startswith path ''//'' \<and> \<not> startswith path ''///'' then 2 else 1)
               else (0::nat));
            comps = split_on CHR ''/'' path;
            new_comps = fold (normpath_step initial_slashes) comps [];
            p = replicate initial_slashes CHR ''/'' @ join ''/'' new_comps
        in if p = [] then ''.'' else p)"

definition abspath :: "string \<Rightarrow> string \<Rightarrow> string" where
  "abspath wd path = normpath (if isabs path then path else path_join wd path)"

text \<open>The longest common prefix of two component lists.\<close>

fun commonprefix :: "string list \<Rightarrow> string list \<Rightarrow> string list" where
  "commonprefix (x # xs) (y # ys) = (if x = y then x # commonprefix xs ys else [])"
| "commonprefix _ _ = []"

text \<open>\<open>os.path.relpath(path, start)\<close>; an empty \<open>path\<close> raises \<open>ValueError\<close>.\<close>

definition relpath :: "string \<Rightarrow> string \<Rightarrow> string \<Rightarrow> error + string" where
  "relpath wd path start =
     (if path = [] then Inl ValueError
      else
        let start_list = filter (\<lambda>x. x \<noteq> []) (split_on CHR ''/'' (abspath wd start));
            path_list = filter (\<lambda>x. x \<noteq> []) (split_on CHR ''/'' (abspath wd path));
            i = length (commonprefix start_list path_list);
            rel_list = replicate (length start_list - i) ''..'' @ drop i path_list
        in if rel_list = [] then Inr ''.'' else Inr (join ''/'' rel_list))"

text \<open>\<open>os.path.dirname(p)\<close>.\<close>

definition dirname :: "string \<Rightarrow> string" where
  "dirname p =
     (let head = rev (dropWhile (\<lambda>c. c \<noteq> CHR ''/'') (rev p))
      in if head \<noteq> [] \<and> \<not> list_all (\<lambda>c. c = CHR ''/'') head
         then rev (dropWhile (\<lambda>c. c = CHR ''/'') (rev head))
         else head)"

text \<open>
  The proper ancestors of a path that \<open>os.makedirs\<close> creates on the way: the prefixes
  that end just before a separator.
\<close>

definition ancestors :: "string \<Rightarrow> string list" where
  "ancestors name =
     map (\<lambda>k. take k name) (filter (\<lambda>k. name ! k = CHR ''/'') [1..<length name])"

text \<open>
  \<open>os.makedirs(name, exist_ok)\<close>. The empty name raises \<open>FileNotFoundError\<close>; an
  existing directory raises \<open>FileExistsError\<close> unless \<open>exist_ok\<close>.
\<close>

definition makedirs :: "string \<Rightarrow> bool \<Rightarrow> world \<Rightarrow> error + world" where
  "makedirs name exist_ok w =
     (if name = [] then Inl FileNotFoundError
      else if name \<in> dirs w then (if exist_ok then Inr w else Inl FileExistsError)
      else Inr (w\<lparr>dirs := dirs w \<union> set (ancestors name) \<union> {name}\<rparr>))"

text \<open>\<open>shutil.rmtree(dir)\<close>: the directory and everything below it disappear.\<close>

definition rmtree :: "string \<Rightarrow> world \<Rightarrow> world" where
  "rmtree dir w =
     w\<lparr>dirs := Set.filter (\<lambda>d. d \<noteq> dir \<and> \<not> startswith d (dir @ ''/'')) (dirs w)\<rparr>"

text \<open>
  A path component as the claims about path translation mean it: a non-empty name
  other than \<open>.\<close> and \<open>..\<close> without a separator of either kind.
\<close>

definition component :: "string \<Rightarrow> bool" where
  "component d =
     (d \<noteq> [] \<and> d \<noteq> ''.'' \<and> d \<noteq> ''..'' \<and> CHR ''/'' \<notin> set d \<and> CHR 0x5C \<notin> set d)"

text \<open>What \<open>normpath\<close> keeps: non-empty names without a slash.\<close>

definition good :: "string \<Rightarrow> bool" where
  "good x = (x \<noteq> [] \<and> CHR ''/'' \<notin> set x)"

section \<open>Path translation: \<open>build_script/utils.py\<close>\<close>

definition ensure_dir :: "string \<Rightarrow> world \<Rightarrow> error + world" where
  "ensure_dir dir w =
     (let w1 = (if dir \<in> dirs w then rmtree dir w else w)
      in makedirs dir False w1)"

definition translate_to_build_path ::
  "string \<Rightarrow> string \<Rightarrow> string \<Rightarrow> world \<Rightarrow> (error + string) \<times> world" where
  "translate_to_build_path file_path source_dir build_dir w =
     (case relpath (cwd w) file_path source_dir of
        Inl e \<Rightarrow> (Inl e, w)
      | Inr relative_path \<Rightarrow>
          let relative_path1 = replace [CHR 0x5C] ''/'' relative_path;
              relative_path2 = hd (rsplit1 CHR ''.'' relative_path1) @ ''.o'';
              build_path = path_join build_dir relative_path2
          in (case makedirs (dirname build_path) True w of
                Inl e \<Rightarrow> (Inl e, w)
              | Inr w' \<Rightarrow> (Inr build_path, w')))"

definition translate_to_build_path_zig ::
  "string \<Rightarrow> string \<Rightarrow> string \<Rightarrow> world \<Rightarrow> (error + string) \<times> world" where
  "translate_to_build_path_zig file_path source_dir build_dir w =
     (case relpath (cwd w) file_path source_dir of
        Inl e \<Rightarrow> (Inl e, w)
      | Inr relative_path \<Rightarrow>
          let relative_path1 = replace [CHR 0x5C] ''/'' relative_path;
              relative_path2 = hd (rsplit1 CHR ''.'' relative_path1);
              build_path = path_join build_dir relative_path2
          in (case makedirs (dirname build_path) True w of
                Inl e \<Rightarrow> (Inl e, w)
              | Inr w' \<Rightarrow> (Inr build_path, w')))"

section \<open>Library detection: \<open>build_script/pkg_config_utils.py\<close>, \<open>libs/sdl.py\<close>\<close>

text \<open>
  \<open>subprocess.run(command, check=True)\<close>: the child is started and waited for; a
  non-zero exit status raises \<open>CalledProcessError\<close>.
\<close>

definition subprocess_run_check ::
  "runner \<Rightarrow> string list \<Rightarrow> world \<Rightarrow> (error + proc) \<times> world" where
  "subprocess_run_check run command w =
     (case launch run command w of
        (None, w') \<Rightarrow> (Inl FileNotFoundError, w')
      | (Some p, w') \<Rightarrow>
          (if returncode p \<noteq> 0 then Inl CalledProcessError else Inr p, w'))"

definition pkg_config_exists :: "runner \<Rightarrow> string \<Rightarrow> world \<Rightarrow> (error + bool) \<times> world" where
  "pkg_config_exists run package_name w =
     (case subprocess_run_check run [''pkg-config'', ''--exists'', package_name] w of
        (Inr _, w') \<Rightarrow> (Inr True, w')
      | (Inl CalledProcessError, w') \<Rightarrow> (Inr False, w')
      | (Inl e, w') \<Rightarrow> (Inl e, w'))"

definition get_pkg_config_cflags ::
  "runner \<Rightarrow> string \<Rightarrow> world \<Rightarrow> (error + string list) \<times> world" where
  "get_pkg_config_cflags run package_name w =
     (case subprocess_run_check run [''pkg-config'', ''--cflags'', ''--libs'', package_name] w of
        (Inr result, w') \<Rightarrow> (Inr (split (stdout result)), w')
      | (Inl CalledProcessError, w') \<Rightarrow> (Inr [], w')
      | (Inl e, w') \<Rightarrow> (Inl e, w'))"

definition get_pkg_config_libs ::
  "runner \<Rightarrow> string \<Rightarrow> world \<Rightarrow> (error + string list) \<times> world" where
  "get_pkg_config_libs run package_name w =
     (case subprocess_run_check run [''pkg-config'', ''--libs'', package_name] w of
        (Inr result, w') \<Rightarrow> (Inr (split (stdout result)), w')
      | (Inl CalledProcessError, w') \<Rightarrow> (Inr [], w')
      | (Inl e, w') \<Rightarrow> (Inl e, w'))"

definition init_sdl2 :: "runner \<Rightarrow> world \<Rightarrow> (error + string list) \<times> world" where
  "init_sdl2 run w =
     (case pkg_config_exists run ''sdl2'' w of
        (Inl e, w') \<Rightarrow> (Inl e, w')
      | (Inr found, w') \<Rightarrow>
          if \<not> found
          then (Inl (RuntimeError
                  ''SDL2 not found via pkg-config. Please install SDL2 development files.''), w')
          else get_pkg_config_cflags run ''sdl2'' w')"

section \<open>Compiling and linking: \<open>build_script/zig_utils.py\<close>\<close>

definition c_compiler :: "string list" where
  "c_compiler = [''zig'', ''cc'']"

definition cxx_compiler :: "string list" where
  "cxx_compiler = [''zig'', ''c++'']"

definition zig_compiler :: "string list" where
  "zig_compiler = [''zig'', ''build-obj'']"

definition zig_compile_executable :: "string list" where
  "zig_compile_executable = [''zig'', ''build-exe'']"

definition DEBUG :: string where
  "DEBUG = ''Debug''"

definition RELEASE_SAFE :: string where
  "RELEASE_SAFE = ''ReleaseSafe''"

text \<open>
  Each coroutine is written in two halves, cut where it is suspended on the child
  process. The first half runs up to and including \<open>create_subprocess_exec\<close>; the
  second half is what runs once the coroutine is resumed. The coroutine itself is the
  first half followed by the second.

  \<open>compile_source_c_cpp_async\<close> starts the child with inherited streams and never
  awaits \<open>res.wait()\<close>: what it compares with 0 is the \<open>returncode\<close> attribute as it
  stands when \<open>create_subprocess_exec\<close> returns, that is \<open>early_returncode\<close>.
  In Python \<open>None != 0\<close> is true.
\<close>

definition compile_source_c_cpp_spawn ::
  "runner \<Rightarrow> string \<Rightarrow> string list \<Rightarrow> string \<Rightarrow> string list \<Rightarrow> world
     \<Rightarrow> (string list \<times> proc option) \<times> world" where
  "compile_source_c_cpp_spawn run file_path compiler output_file option w =
     (let w1 = print (join '' '' [''Compile:'', file_path, ''->'', output_file]) w;
          command = compiler @ option @ [file_path, ''-o'', output_file];
          (res, w2) = launch run command w1
      in ((command, res), w2))"

definition compile_source_c_cpp_resume ::
  "string \<Rightarrow> string \<Rightarrow> string list \<Rightarrow> proc \<Rightarrow> world \<Rightarrow> (error + string) \<times> world" where
  "compile_source_c_cpp_resume file_path output_file command res w =
     (if early_returncode res \<noteq> Some 0
      then (Inl (RuntimeError (''Compilation failed for '' @ file_path)), w)
      else (Inr output_file, w))"

definition compile_source_c_cpp_async ::
  "runner \<Rightarrow> string \<Rightarrow> string list \<Rightarrow> string option \<Rightarrow> string list \<Rightarrow> world
     \<Rightarrow> (error + string) \<times> world" where
  "compile_source_c_cpp_async run file_path compiler output_file option w =
     (case (case output_file of
              None \<Rightarrow> translate_to_build_path file_path ''src'' ''build'' w
            | Some out \<Rightarrow> (Inr out, w)) of
        (Inl e, w0) \<Rightarrow> (Inl e, w0)
      | (Inr out, w0) \<Rightarrow>
          (case compile_source_c_cpp_spawn run file_path compiler out option w0 of
             ((command, None), w1) \<Rightarrow> (Inl FileNotFoundError, w1)
           | ((command, Some res), w1) \<Rightarrow>
               compile_source_c_cpp_resume file_path out command res w1))"

definition compile_c_source_async ::
  "runner \<Rightarrow> string \<Rightarrow> string option \<Rightarrow> string list \<Rightarrow> world \<Rightarrow> (error + string) \<times> world" where
  "compile_c_source_async run file_path output_file option w =
     compile_source_c_cpp_async run file_path c_compiler output_file option w"

definition compile_cpp_source_async ::
  "runner \<Rightarrow> string \<Rightarrow> string option \<Rightarrow> string list \<Rightarrow> world \<Rightarrow> (error + string) \<times> world" where
  "compile_cpp_source_async run file_path output_file option w =
     compile_source_c_cpp_async run file_path cxx_compiler output_file option w"

text \<open>
  \<open>compile_zig_source_async\<close> and \<open>link_executable_async\<close> start the child with both
  streams piped and await \<open>res.wait()\<close>; their second half therefore sees the exit
  status.
\<close>

definition compile_zig_source_spawn ::
  "runner \<Rightarrow> string \<Rightarrow> string \<Rightarrow> string list \<Rightarrow> world
     \<Rightarrow> (string list \<times> proc option) \<times> world" where
  "compile_zig_source_spawn run file_path output_file option w =
     (let w1 = print (join '' '' [''Compile:'', file_path, ''->'', output_file @ ''.o'']) w;
          command = zig_compiler @ option @ [file_path, ''-femit-bin='' @ output_file];
          (res, w2) = launch run command w1
      in ((command, res), w2))"

definition compile_zig_source_resume ::
  "string \<Rightarrow> string \<Rightarrow> string list \<Rightarrow> proc \<Rightarrow> world \<Rightarrow> (error + string) \<times> world" where
  "compile_zig_source_resume file_path output_file command res w =
     (if returncode res \<noteq> 0
      then (Inl (RuntimeError (''Compilation failed for '' @ file_path)),
            print (join '' '' command) (print (stderr res) (print (stdout res) w)))
      else (Inr (output_file @ ''.o''), w))"

definition compile_zig_source_async ::
  "runner \<Rightarrow> string \<Rightarrow> string option \<Rightarrow> string list \<Rightarrow> world \<Rightarrow> (error + string) \<times> world" where
  "compile_zig_source_async run file_path output_file option w =
     (case (case output_file of
              None \<Rightarrow> translate_to_build_path file_path ''src'' ''build'' w
            | Some out \<Rightarrow> (Inr out, w)) of
        (Inl e, w0) \<Rightarrow> (Inl e, w0)
      | (Inr out, w0) \<Rightarrow>
          (case compile_zig_source_spawn run file_path out option w0 of
             ((command, None), w1) \<Rightarrow> (Inl FileNotFoundError, w1)
           | ((command, Some res), w1) \<Rightarrow>
               compile_zig_source_resume file_path out command res w1))"

definition link_executable_async ::
  "runner \<Rightarrow> string list \<Rightarrow> string \<Rightarrow> string list \<Rightarrow> world \<Rightarrow> (error + string) \<times> world" where
  "link_executable_async run object_files output_executable option w =
     (let command = zig_compile_executable @ [''-femit-bin='' @ output_executable]
                      @ object_files @ option;
          w1 = print (join '' '' [''Compile:'', join '' + '' object_files, ''->'',
                                  output_executable]) w
      in (case launch run command w1 of
            (None, w2) \<Rightarrow> (Inl FileNotFoundError, w2)
          | (Some res, w2) \<Rightarrow>
              if returncode res \<noteq> 0
              then (Inl (RuntimeError (''Linking failed for '' @ output_executable)),
                    print (join '' '' command) (print (stderr res) (print (stdout res) w2)))
              else (Inr output_executable, w2)))"

text \<open>\<open>asyncio.run\<close> of a single coroutine: it runs to its end.\<close>

definition link_executable ::
  "runner \<Rightarrow> string list \<Rightarrow> string \<Rightarrow> string list \<Rightarrow> world \<Rightarrow> (error + string) \<times> world" where
  "link_executable run object_files output_executable option w =
     link_executable_async run object_files output_executable option w"

section \<open>Platform flags: \<open>build_script/platform/windows.py\<close>\<close>

definition windows_flags :: "string \<Rightarrow> string \<Rightarrow> string list" where
  "windows_flags mode target =
     (let opt = (if mode = ''debug'' then [''-O'', DEBUG] else [''-O'', RELEASE_SAFE]);
          opt1 = opt @ [''-target'', target]
      in opt1 @ [''-ladvapi32'', ''-lkernel32'', ''-lntdll'', ''-luser32'', ''-lshell32''])"

section \<open>Platform adaptation: lines 68 to 70 of \<open>build.py\<close>\<close>

text \<open>
  After the scheduler has returned and before the link step, a Windows target
  rewrites the artifact list with \<open>str.replace\<close> and appends the executable suffix.
\<close>

definition adapt_to_target :: "bool \<Rightarrow> string list \<Rightarrow> string \<Rightarrow> string list \<times> string" where
  "adapt_to_target is_target_windows list_object output =
     (if is_target_windows
      then (map (replace ''.o'' ''.obj'') list_object, output @ ''.exe'')
      else (list_object, output))"

section \<open>The scheduler: \<open>limit_thread\<close>, \<open>gather_tasks\<close> and \<open>compile_sources\<close> of \<open>build.py\<close>\<close>

text \<open>
  \<open>compile_sources\<close> wraps one of three coroutine functions per source file in
  \<open>limit_thread\<close>, hands the coroutines to \<open>asyncio.gather\<close> in list order and
  runs the event loop with \<open>asyncio.run\<close>. A task is the argument list of one
  \<open>limit_thread\<close> call.
\<close>

datatype coroutine = CompileZig | CompileC | CompileCpp

record task =
  task_fun :: coroutine
  task_file :: string
  task_out :: string
  task_opt :: "string list"

text \<open>The two halves of the coroutine a task runs inside \<open>async with semaphore\<close>.\<close>

definition coroutine_spawn ::
  "runner \<Rightarrow> task \<Rightarrow> world \<Rightarrow> (string list \<times> proc option) \<times> world" where
  "coroutine_spawn run t w =
     (case task_fun t of
        CompileZig \<Rightarrow> compile_zig_source_spawn run (task_file t) (task_out t) (task_opt t) w
      | CompileC \<Rightarrow>
          compile_source_c_cpp_spawn run (task_file t) c_compiler (task_out t) (task_opt t) w
      | CompileCpp \<Rightarrow>
          compile_source_c_cpp_spawn run (task_file t) cxx_compiler (task_out t) (task_opt t) w)"

definition coroutine_resume ::
  "task \<Rightarrow> string list \<Rightarrow> proc \<Rightarrow> world \<Rightarrow> (error + string) \<times> world" where
  "coroutine_resume t command res w =
     (case task_fun t of
        CompileZig \<Rightarrow> compile_zig_source_resume (task_file t) (task_out t) command res w
      | CompileC \<Rightarrow> compile_source_c_cpp_resume (task_file t) (task_out t) command res w
      | CompileCpp \<Rightarrow> compile_source_c_cpp_resume (task_file t) (task_out t) command res w)"

text \<open>
  Where a task stands. \<open>Pending\<close>: created by \<open>gather\<close>, not yet past
  \<open>semaphore.acquire()\<close>. \<open>Running\<close>: inside \<open>async with\<close>, suspended on its child
  process. \<open>Done\<close>: the coroutine has returned or raised and the semaphore has been
  released by the exit of \<open>async with\<close>. \<open>Cancelled\<close>: cancelled by \<open>asyncio.run\<close>
  before it was done. The three counters record how often the task has acquired the
  semaphore, released it, and called \<open>create_subprocess_exec\<close>.
\<close>

datatype phase = Pending | Running "string list" proc | Done "error + string" | Cancelled

record task_state =
  job :: task
  phase :: phase
  acquires :: nat
  releases :: nat
  spawns :: nat

text \<open>
  The event loop: the tasks in the order \<open>gather\<close> received them, the value of the
  semaphore, the exception \<open>gather\<close> has propagated to the awaiting main coroutine
  (the first one any task raised), whether \<open>asyncio.run\<close> has finished, and the world.
\<close>

record loop =
  tasks :: "task_state list"
  sem_value :: nat
  raised :: "error option"
  closed :: bool
  env :: world

definition is_running :: "task_state \<Rightarrow> bool" where
  "is_running ts = (case phase ts of Running command res \<Rightarrow> True | _ \<Rightarrow> False)"

text \<open>
  \<open>gather\<close> with the default \<open>return_exceptions=False\<close>: the first exception raised
  by a task is propagated to the awaiting coroutine; later ones are not.
\<close>

definition propagate :: "error + string \<Rightarrow> error option \<Rightarrow> error option" where
  "propagate r outer =
     (case outer of
        Some e \<Rightarrow> Some e
      | None \<Rightarrow> (case r of Inl e \<Rightarrow> Some e | Inr path \<Rightarrow> None))"

text \<open>
  One turn of the event loop for task \<open>i\<close>, that is for
  \<^verbatim>\<open>async with semaphore: return await fun(*args, **kwargs)\<close>.
  A pending task that finds the semaphore at 0 stays blocked. Otherwise it takes a
  permit and runs the first half of its coroutine, which starts the child. A running
  task runs the second half, and leaving \<open>async with\<close> gives the permit back whether
  the coroutine returned or raised. A closed loop runs nothing.
\<close>

definition limit_thread_step :: "runner \<Rightarrow> nat \<Rightarrow> loop \<Rightarrow> loop" where
  "limit_thread_step run i l =
     (if closed l \<or> length (tasks l) \<le> i then l
      else
        let ts = tasks l ! i in
        (case phase ts of
           Pending \<Rightarrow>
             if sem_value l = 0 then l
             else
               (case coroutine_spawn run (job ts) (env l) of
                  ((command, None), w') \<Rightarrow>
                    l\<lparr>tasks := (tasks l)[i := ts\<lparr>phase := Done (Inl FileNotFoundError),
                                                    acquires := acquires ts + 1,
                                                    releases := releases ts + 1,
                                                    spawns := spawns ts + 1\<rparr>],
                      raised := propagate (Inl FileNotFoundError) (raised l),
                      env := w'\<rparr>
                | ((command, Some res), w') \<Rightarrow>
                    l\<lparr>tasks := (tasks l)[i := ts\<lparr>phase := Running command res,
                                                    acquires := acquires ts + 1,
                                                    spawns := spawns ts + 1\<rparr>],
                      sem_value := sem_value l - 1,
                      env := w'\<rparr>)
         | Running command res \<Rightarrow>
             (case coroutine_resume (job ts) command res (env l) of
                (r, w') \<Rightarrow>
                  l\<lparr>tasks := (tasks l)[i := ts\<lparr>phase := Done r,
                                                  releases := releases ts + 1\<rparr>],
                    sem_value := sem_value l + 1,
                    raised := propagate r (raised l),
                    env := w'\<rparr>)
         | Done r \<Rightarrow> l
         | Cancelled \<Rightarrow> l))"

text \<open>
  Cancelling a task that is not done: a running one leaves \<open>async with\<close> and so
  releases its permit; a pending one holds none.
\<close>

definition cancel :: "task_state \<Rightarrow> task_state" where
  "cancel ts =
     (case phase ts of
        Pending \<Rightarrow> ts\<lparr>phase := Cancelled\<rparr>
      | Running command res \<Rightarrow> ts\<lparr>phase := Cancelled, releases := releases ts + 1\<rparr>
      | Done r \<Rightarrow> ts
      | Cancelled \<Rightarrow> ts)"

text \<open>
  The main coroutine \<open>gather_tasks\<close> is resumed with the propagated exception and
  raises it; \<open>asyncio.run\<close> then cancels every task that is left and closes the loop.
  Without a propagated exception the turn does nothing.
\<close>

definition main_raises :: "loop \<Rightarrow> loop" where
  "main_raises l =
     (if closed l then l
      else
        (case raised l of
           None \<Rightarrow> l
         | Some e \<Rightarrow>
             l\<lparr>tasks := map cancel (tasks l),
               sem_value := sem_value l + length (filter is_running (tasks l)),
               closed := True\<rparr>))"

text \<open>
  The order in which the event loop gives turns is not fixed by the program. A
  schedule lists the turns; every interleaving of the tasks and of the main coroutine
  is some schedule.
\<close>

datatype event = Resume nat | MainRaises

definition turn :: "runner \<Rightarrow> event \<Rightarrow> loop \<Rightarrow> loop" where
  "turn run ev l = (case ev of Resume i \<Rightarrow> limit_thread_step run i l | MainRaises \<Rightarrow> main_raises l)"

definition run_loop :: "runner \<Rightarrow> event list \<Rightarrow> loop \<Rightarrow> loop" where
  "run_loop run schedule l = fold (turn run) schedule l"

text \<open>The results of the tasks in task order, when every one has returned a path.\<close>

fun collect :: "task_state list \<Rightarrow> string list option" where
  "collect [] = Some []"
| "collect (ts # rest) =
     (case phase ts of
        Done (Inr path) \<Rightarrow> map_option ((#) path) (collect rest)
      | _ \<Rightarrow> None)"

text \<open>
  What \<open>asyncio.run(gather_tasks(*tasks))\<close> has produced: the propagated exception
  once the main coroutine has raised it, the list of results once every task has
  returned, and nothing (\<open>None\<close>) as long as neither has happened.
\<close>

definition gather_tasks :: "loop \<Rightarrow> (error + string list) option" where
  "gather_tasks l =
     (if closed l then map_option Inl (raised l)
      else map_option Inr (collect (tasks l)))"

definition new_task :: "task \<Rightarrow> task_state" where
  "new_task t = \<lparr>job = t, phase = Pending, acquires = 0, releases = 0, spawns = 0\<rparr>"

definition start_loop :: "nat \<Rightarrow> task list \<Rightarrow> world \<Rightarrow> loop" where
  "start_loop permits ts w =
     \<lparr>tasks = map new_task ts, sem_value = permits, raised = None, closed = False, env = w\<rparr>"

text \<open>
  The three \<open>for\<close> loops of \<open>compile_sources\<close>. The output path of each task is
  computed when the task is appended, before the event loop starts; an exception of
  the translation ends \<open>compile_sources\<close> there.
\<close>

fun append_tasks ::
  "coroutine \<Rightarrow> (string \<Rightarrow> string \<Rightarrow> string \<Rightarrow> world \<Rightarrow> (error + string) \<times> world)
     \<Rightarrow> string list \<Rightarrow> string \<Rightarrow> string \<Rightarrow> string list \<Rightarrow> task list \<Rightarrow> world
     \<Rightarrow> (error + task list) \<times> world" where
  "append_tasks f translate [] source_dir build_dir opt ts w = (Inr ts, w)"
| "append_tasks f translate (file # files) source_dir build_dir opt ts w =
     (case translate file source_dir build_dir w of
        (Inl e, w') \<Rightarrow> (Inl e, w')
      | (Inr out, w') \<Rightarrow>
          append_tasks f translate files source_dir build_dir opt
            (ts @ [\<lparr>task_fun = f, task_file = file, task_out = out, task_opt = opt\<rparr>]) w')"

definition make_tasks ::
  "string \<Rightarrow> string \<Rightarrow> string list \<Rightarrow> string list \<Rightarrow> string list \<Rightarrow> string list \<Rightarrow> world
     \<Rightarrow> (error + task list) \<times> world" where
  "make_tasks source_dir build_dir zig_files c_files cpp_files opt w =
     (case append_tasks CompileZig translate_to_build_path_zig zig_files source_dir build_dir
             opt [] w of
        (Inl e, w1) \<Rightarrow> (Inl e, w1)
      | (Inr ts1, w1) \<Rightarrow>
          (case append_tasks CompileC translate_to_build_path c_files source_dir build_dir
                  opt ts1 w1 of
             (Inl e, w2) \<Rightarrow> (Inl e, w2)
           | (Inr ts2, w2) \<Rightarrow>
               append_tasks CompileCpp translate_to_build_path cpp_files source_dir build_dir
                 opt ts2 w2))"

text \<open>
  \<open>compile_sources\<close>. \<open>cpu_count\<close> is the value of \<open>os.cpu_count()\<close>, which is
  \<open>None\<close> when the number of CPUs cannot be determined; \<open>asyncio.Semaphore(None)\<close>
  raises \<open>TypeError\<close>. The result is \<open>None\<close> when the schedule ends before
  \<open>asyncio.run\<close> has returned or raised.
\<close>

definition compile_sources ::
  "runner \<Rightarrow> nat option \<Rightarrow> event list \<Rightarrow> string \<Rightarrow> string
     \<Rightarrow> string list \<Rightarrow> string list \<Rightarrow> string list \<Rightarrow> string list \<Rightarrow> world
     \<Rightarrow> (error + string list) option \<times> world" where
  "compile_sources run cpu_count schedule source_dir build_dir zig_files c_files cpp_files opt w =
     (case cpu_count of
        None \<Rightarrow> (Some (Inl TypeError), w)
      | Some permits \<Rightarrow>
          (case make_tasks source_dir build_dir zig_files c_files cpp_files opt w of
             (Inl e, w') \<Rightarrow> (Some (Inl e), w')
           | (Inr ts, w') \<Rightarrow>
               (let l = run_loop run schedule (start_loop permits ts w')
                in (gather_tasks l, env l))))"

section \<open>The script: \<open>build.py\<close>\<close>

text \<open>
  The parsed command line, the host as the script queries it, and the source files
  that the two \<open>glob.glob\<close> calls find.
\<close>

record config =
  arg_build_dir :: string
  arg_source_dir :: string
  arg_target :: string
  arg_mode :: string
  arg_output :: string
  os_name :: string
  uname_sysname :: string
  os_cpu_count :: "nat option"
  glob_c_files :: "string list"
  glob_cpp_files :: "string list"

text \<open>
  Modelled from the spec: the platform modules \<open>build_script.platform.linux\<close> and
  \<open>build_script.platform.macos\<close> are not among the sources. Their \<open>flags\<close>
  functions are parameters of the script, pure functions of mode and target as the
  specification's platform module contract says. When no branch of the platform
  selection applies, \<open>platform\<close> is unbound and line 45 raises \<open>NameError\<close>.
\<close>

definition platform_flags ::
  "(string \<Rightarrow> string \<Rightarrow> string list) \<Rightarrow> (string \<Rightarrow> string \<Rightarrow> string list) \<Rightarrow> config
     \<Rightarrow> error + string list" where
  "platform_flags linux_flags macos_flags cfg =
     (if contains (arg_target cfg) ''linux''
         \<or> (arg_target cfg = ''native'' \<and> os_name cfg = ''posix'' \<and> uname_sysname cfg = ''Linux'')
      then Inr (linux_flags (arg_mode cfg) (arg_target cfg))
      else if contains (arg_target cfg) ''macos''
         \<or> (arg_target cfg = ''native'' \<and> os_name cfg = ''posix'' \<and> uname_sysname cfg = ''Darwin'')
      then Inr (macos_flags (arg_mode cfg) (arg_target cfg))
      else if contains (arg_target cfg) ''windows''
         \<or> (arg_target cfg = ''native'' \<and> os_name cfg = ''nt'')
      then Inr (windows_flags (arg_mode cfg) (arg_target cfg))
      else Inl NameError)"

definition is_target_windows :: "config \<Rightarrow> bool" where
  "is_target_windows cfg =
     (contains (arg_target cfg) ''windows'' \<or> (arg_target cfg = ''native'' \<and> os_name cfg = ''nt''))"

text \<open>
  The statements of the script from line 24 on, in order. \<open>None\<close> as result means
  that the schedule given for the event loop of \<open>compile_sources\<close> ends too early.
\<close>

definition build ::
  "runner \<Rightarrow> (string \<Rightarrow> string \<Rightarrow> string list) \<Rightarrow> (string \<Rightarrow> string \<Rightarrow> string list)
     \<Rightarrow> config \<Rightarrow> event list \<Rightarrow> world \<Rightarrow> (error + string) option \<times> world" where
  "build run linux_flags macos_flags cfg schedule w =
     (let output = path_join (arg_build_dir cfg) (arg_output cfg) in
      case ensure_dir (arg_build_dir cfg) w of
        Inl e \<Rightarrow> (Some (Inl e), w)
      | Inr w1 \<Rightarrow>
          (let zig_files = [path_join (arg_source_dir cfg) ''main.zig''] in
           case platform_flags linux_flags macos_flags cfg of
             Inl e \<Rightarrow> (Some (Inl e), w1)
           | Inr flags \<Rightarrow>
               (case init_sdl2 run w1 of
                  (Inl e, w2) \<Rightarrow> (Some (Inl e), w2)
                | (Inr cflags, w2) \<Rightarrow>
                    (let opt = flags @ cflags in
                     case compile_sources run (os_cpu_count cfg) schedule (arg_source_dir cfg)
                            (arg_build_dir cfg) zig_files (glob_c_files cfg) (glob_cpp_files cfg) opt w2 of
                       (None, w3) \<Rightarrow> (None, w3)
                     | (Some (Inl e), w3) \<Rightarrow> (Some (Inl e), w3)
                     | (Some (Inr list_object), w3) \<Rightarrow>
                         (case adapt_to_target (is_target_windows cfg) list_object output of
                            (list_object', output') \<Rightarrow>
                              (case link_executable run list_object' output' opt w3 of
                                 (r, w4) \<Rightarrow> (Some r, w4)))))))"

text \<open>
  The commands of the script, told apart by their first two words, and when the
  coroutine that launched a compile command raises: the Zig coroutine on a non-zero
  exit status, the C and C++ coroutine unless the \<open>returncode\<close> attribute is 0
  when it looks; both when the executable cannot be started.
\<close>

definition is_link_command :: "string list \<Rightarrow> bool" where
  "is_link_command command = (take 2 command = zig_compile_executable)"

definition is_compile_command :: "string list \<Rightarrow> bool" where
  "is_compile_command command =
     (take 2 command = zig_compiler \<or> take 2 command = c_compiler
      \<or> take 2 command = cxx_compiler)"

definition compile_fails :: "runner \<Rightarrow> string list \<Rightarrow> bool" where
  "compile_fails run command =
     (is_compile_command command
      \<and> (case run command of
            None \<Rightarrow> True
          | Some res \<Rightarrow>
              if take 2 command = zig_compiler then returncode res \<noteq> 0
              else early_returncode res \<noteq> Some 0))"

definition pkg_exists_command :: "string list" where
  "pkg_exists_command = [''pkg-config'', ''--exists'', ''sdl2'']"

definition pkg_cflags_command :: "string list" where
  "pkg_cflags_command = [''pkg-config'', ''--cflags'', ''--libs'', ''sdl2'']"

text \<open>
  The last lines of the script, from the result of \<open>asyncio.run\<close> on: what \<open>build\<close>
  does once the options are known and the tasks are made.
\<close>

definition link_phase ::
  "runner \<Rightarrow> config \<Rightarrow> string list \<Rightarrow> loop \<Rightarrow> (error + string) option \<times> world" where
  "link_phase run cfg opt l =
     (case gather_tasks l of
        None \<Rightarrow> (None, env l)
      | Some (Inl e) \<Rightarrow> (Some (Inl e), env l)
      | Some (Inr list_object) \<Rightarrow>
          (case adapt_to_target (is_target_windows cfg) list_object
                  (path_join (arg_build_dir cfg) (arg_output cfg)) of
             (list_object', output') \<Rightarrow>
               (case link_executable run list_object' output' opt (env l) of
                  (r, w4) \<Rightarrow> (Some r, w4))))"

section \<open>Invariants of the event loop\<close>

text \<open>
  What a task hands to the runner, the path it returns when it succeeds, and the
  test its coroutine applies to the child.
\<close>

definition command_of :: "task \<Rightarrow> string list" where
  "command_of t =
     (case task_fun t of
        CompileZig \<Rightarrow> zig_compiler @ task_opt t @ [task_file t, ''-femit-bin='' @ task_out t]
      | CompileC \<Rightarrow> c_compiler @ task_opt t @ [task_file t, ''-o'', task_out t]
      | CompileCpp \<Rightarrow> cxx_compiler @ task_opt t @ [task_file t, ''-o'', task_out t])"

definition artifact :: "task \<Rightarrow> string" where
  "artifact t = (case task_fun t of CompileZig \<Rightarrow> task_out t @ ''.o'' | _ \<Rightarrow> task_out t)"

definition passes :: "task \<Rightarrow> proc \<Rightarrow> bool" where
  "passes t res =
     (case task_fun t of
        CompileZig \<Rightarrow> returncode res = 0
      | _ \<Rightarrow> early_returncode res = Some 0)"

text \<open>How the phase of a task, its counters and the runner hang together.\<close>

definition task_ok :: "runner \<Rightarrow> task_state \<Rightarrow> bool" where
  "task_ok run ts =
     (case phase ts of
        Pending \<Rightarrow> acquires ts = 0 \<and> releases ts = 0 \<and> spawns ts = 0
      | Running command res \<Rightarrow>
          acquires ts = 1 \<and> releases ts = 0 \<and> spawns ts = 1
          \<and> command = command_of (job ts) \<and> run command = Some res
      | Done r \<Rightarrow>
          acquires ts = 1 \<and> releases ts = 1 \<and> spawns ts = 1
          \<and> (case r of
                Inl e \<Rightarrow> True
              | Inr path \<Rightarrow>
                  path = artifact (job ts)
                  \<and> (case run (command_of (job ts)) of
                        None \<Rightarrow> False
                      | Some res \<Rightarrow> passes (job ts) res))
      | Cancelled \<Rightarrow>
          acquires ts = releases ts \<and> spawns ts = acquires ts \<and> acquires ts \<le> 1)"

text \<open>A task is done with an exception only if its compile command fails.\<close>

definition fail_ok :: "runner \<Rightarrow> task_state \<Rightarrow> bool" where
  "fail_ok run ts =
     (case phase ts of
        Done (Inl e) \<Rightarrow> compile_fails run (command_of (job ts))
      | _ \<Rightarrow> True)"

definition is_failed :: "task_state \<Rightarrow> bool" where
  "is_failed ts = (case phase ts of Done (Inl e) \<Rightarrow> True | _ \<Rightarrow> False)"

definition is_settled :: "task_state \<Rightarrow> bool" where
  "is_settled ts = (case phase ts of Done r \<Rightarrow> True | Cancelled \<Rightarrow> True | _ \<Rightarrow> False)"

definition is_cancelled :: "task_state \<Rightarrow> bool" where
  "is_cancelled ts = (case phase ts of Cancelled \<Rightarrow> True | _ \<Rightarrow> False)"

text \<open>
  The invariant of the event loop started with \<open>c\<close> permits on the tasks \<open>ts\<close>:
  the jobs stay what they were; every task is consistent; the permits held by running
  tasks and the free permits add up to \<open>c\<close>; the propagated exception is that of a
  failed task and there is one as soon as a task has failed; tasks are cancelled only
  when the loop is closed, and then every task is done or cancelled.
\<close>

definition loop_inv :: "runner \<Rightarrow> nat \<Rightarrow> task list \<Rightarrow> loop \<Rightarrow> bool" where
  "loop_inv run c ts l =
     (map job (tasks l) = ts
      \<and> list_all (task_ok run) (tasks l)
      \<and> length (filter is_running (tasks l)) + sem_value l = c
      \<and> (case raised l of
            None \<Rightarrow> \<not> list_ex is_failed (tasks l)
          | Some e \<Rightarrow> list_ex (\<lambda>ts. phase ts = Done (Inl e)) (tasks l))
      \<and> (if closed l then raised l \<noteq> None \<and> list_all is_settled (tasks l)
          else \<not> list_ex is_cancelled (tasks l)))"

definition raised_ok :: "loop \<Rightarrow> bool" where
  "raised_ok l =
     (case raised l of
        None \<Rightarrow> \<not> list_ex is_failed (tasks l)
      | Some e \<Rightarrow> list_ex (\<lambda>ts. phase ts = Done (Inl e)) (tasks l))"

definition closed_ok :: "loop \<Rightarrow> bool" where
  "closed_ok l =
     (if closed l then raised l \<noteq> None \<and> list_all is_settled (tasks l)
      else \<not> list_ex is_cancelled (tasks l))"

definition trace_ok :: "world \<Rightarrow> loop \<Rightarrow> bool" where
  "trace_ok w l =
     (\<exists>X. launched (env l) = launched w @ X
          \<and> length X = sum_list (map spawns (tasks l))
          \<and> (\<forall>command\<in>set X. \<exists>i<length (tasks l).
                 command = command_of (job (tasks l ! i)) \<and> spawns (tasks l ! i) = 1)
          \<and> (\<forall>i<length (tasks l). spawns (tasks l ! i) = 1
                 \<longrightarrow> command_of (job (tasks l ! i)) \<in> set X))"

definition work :: "loop \<Rightarrow> nat" where
  "work l =
     sum_list (map (\<lambda>ts. case phase ts of Pending \<Rightarrow> 2 | Running command res \<Rightarrow> 1 | _ \<Rightarrow> 0)
       (tasks l))"

text \<open>
  Both translations leave everything but the directories alone, and their result
  depends on the world only through the working directory.
\<close>

definition frame_preserving ::
  "(string \<Rightarrow> string \<Rightarrow> string \<Rightarrow> world \<Rightarrow> (error + string) \<times> world) \<Rightarrow> bool" where
  "frame_preserving tr =
     (\<forall>f s b w. launched (snd (tr f s b w)) = launched w
                \<and> printed (snd (tr f s b w)) = printed w
                \<and> cwd (snd (tr f s b w)) = cwd w
                \<and> (\<forall>w2. cwd w2 = cwd w \<longrightarrow> fst (tr f s b w2) = fst (tr f s b w)))"

section \<open>Sample inputs\<close>

text \<open>
  A world with nothing launched or printed yet, and two fake runners in the sense of
  the specification's tests: one whose children all exit with status 0, one whose
  children all exit with status 1 after writing to both streams. Neither child has
  been reaped when \<open>create_subprocess_exec\<close> returns.
\<close>

definition w0 :: world where
  "w0 = \<lparr>launched = [], printed = [], dirs = {}, cwd = ''/home/dev/game''\<rparr>"

definition run_ok :: runner where
  "run_ok command =
     Some \<lparr>early_returncode = None, returncode = 0, stdout = [], stderr = []\<rparr>"

definition run_fail :: runner where
  "run_fail command =
     Some \<lparr>early_returncode = None, returncode = 1, stdout = ''out'', stderr = ''err''\<rparr>"

text \<open>
  A fake runner in the sense of the specification's tests: the child of a command that
  names one of the \<open>failing\<close> arguments exits with status 1, every other child with
  status 0; the exit status is already known when \<open>create_subprocess_exec\<close> returns,
  and nothing is written to stdout.
\<close>

definition run_fake :: "string list \<Rightarrow> runner" where
  "run_fake failing command =
     (let rc = (if list_ex (\<lambda>f. f \<in> set command) failing then 1 else 0)
      in Some \<lparr>early_returncode = Some rc, returncode = rc, stdout = [], stderr = ''err''\<rparr>)"

text \<open>
  The tasks \<open>compile_sources\<close> makes for five C files, and for one Zig, one C and
  one C++ file, under the roots \<open>src\<close> and \<open>build\<close> without options.
\<close>

definition c_task :: "string \<Rightarrow> string \<Rightarrow> task" where
  "c_task file out = \<lparr>task_fun = CompileC, task_file = file, task_out = out, task_opt = []\<rparr>"

definition five_tasks :: "task list" where
  "five_tasks =
     [c_task ''src/a.c'' ''build/a.o'', c_task ''src/b.c'' ''build/b.o'',
      c_task ''src/c.c'' ''build/c.o'', c_task ''src/d.c'' ''build/d.o'',
      c_task ''src/e.c'' ''build/e.o'']"

definition sample_tasks :: "task list" where
  "sample_tasks =
     [\<lparr>task_fun = CompileZig, task_file = ''src/main.zig'', task_out = ''build/main'', task_opt = []\<rparr>,
      \<lparr>task_fun = CompileC, task_file = ''src/b.c'', task_out = ''build/b.o'', task_opt = []\<rparr>,
      \<lparr>task_fun = CompileCpp, task_file = ''src/c.cpp'', task_out = ''build/c.o'', task_opt = []\<rparr>]"

text \<open>
  Two schedules. In the first the three sample tasks finish in the order C, Zig, C++
  under two permits. In the second, under one permit, the first task starts and
  fails, the second starts, and then the main coroutine raises.
\<close>

definition out_of_order :: "event list" where
  "out_of_order = [Resume 0, Resume 1, Resume 2, Resume 1, Resume 0, Resume 2, Resume 2]"

definition fail_fast :: "event list" where
  "fail_fast = [Resume 0, Resume 0, Resume 1, MainRaises]"

text \<open>
  A configuration: a native build on a Linux host with two CPUs, one C and one C++
  file next to \<open>main.zig\<close>, and platform modules without flags. In the schedule
  \<open>fail_second\<close> the Zig task and the C task start, the C task fails and the main
  coroutine raises.
\<close>

definition sample_cfg :: config where
  "sample_cfg =
     \<lparr>arg_build_dir = ''build'', arg_source_dir = ''src'', arg_target = ''native'',
      arg_mode = ''debug'', arg_output = ''app'', os_name = ''posix'', uname_sysname = ''Linux'',
      os_cpu_count = Some 2, glob_c_files = [''src/b.c''], glob_cpp_files = [''src/c.cpp'']\<rparr>"

definition no_flags :: "string \<Rightarrow> string \<Rightarrow> string list" where
  "no_flags mode target = []"

definition fail_second :: "event list" where
  "fail_second = [Resume 0, Resume 1, Resume 1, MainRaises]"

section \<open>Theorems\<close>

subsection \<open>Evaluating the path functions\<close>

lemmas path_defs = startswith_def endswith_def isabs_def path_join_def normpath_def
  normpath_step_def abspath_def relpath_def dirname_def rsplit1_def makedirs_def
  ancestors_def Let_def

subsection \<open>Flag queries swallow a failing pkg-config\<close>

text \<open>
  Claim C10. When the pkg-config child exits with a non-zero status,
  \<open>get_pkg_config_cflags\<close> and \<open>get_pkg_config_libs\<close> return the empty list and raise
  nothing.
\<close>

theorem pkg_config_flags_swallow_failure:
  "(run [''pkg-config'', ''--cflags'', ''--libs'', pkg] = Some p \<and> returncode p \<noteq> 0
      \<longrightarrow> fst (get_pkg_config_cflags run pkg w) = Inr [])
   \<and> (run [''pkg-config'', ''--libs'', pkg] = Some q \<and> returncode q \<noteq> 0
      \<longrightarrow> fst (get_pkg_config_libs run pkg w) = Inr [])"
  by (simp add: get_pkg_config_cflags_def get_pkg_config_libs_def
      subprocess_run_check_def launch_def)

text \<open>
  Both queries with the runner whose children all exit with status 1.
\<close>

theorem pkg_config_flags_swallow_failure_witness:
  "returncode \<lparr>early_returncode = None, returncode = 1, stdout = ''out'', stderr = ''err''\<rparr> \<noteq> 0
   \<and> fst (get_pkg_config_cflags run_fail ''sdl2'' w0) = Inr []
   \<and> fst (get_pkg_config_libs run_fail ''sdl2'' w0) = Inr []"
  using pkg_config_flags_swallow_failure [of run_fail "''sdl2''"
      "\<lparr>early_returncode = None, returncode = 1, stdout = ''out'', stderr = ''err''\<rparr>"
      w0
      "\<lparr>early_returncode = None, returncode = 1, stdout = ''out'', stderr = ''err''\<rparr>"]
  by (simp add: run_fail_def)

subsection \<open>The link task\<close>

text \<open>
  Claim C7. \<open>link_executable\<close> hands the runner exactly one command: \<open>zig build-exe\<close>,
  the emit-to-path flag naming the output, every object file, then the link flags.
  When the linker can be started, the result is the executable path exactly when its
  exit status is 0, and the \<open>RuntimeError\<close> \<open>Linking failed for <output>\<close> exactly
  when the status is not 0; in that case the linker's stdout, its stderr and the
  command line have been printed, in this order, before the error is raised.
\<close>

theorem link_executable_result:
  "launched (snd (link_executable run object_files out option w))
     = launched w @ [[''zig'', ''build-exe'', ''-femit-bin='' @ out] @ object_files @ option]
   \<and> (run ([''zig'', ''build-exe'', ''-femit-bin='' @ out] @ object_files @ option) = Some res
      \<longrightarrow> (fst (link_executable run object_files out option w) = Inr out
             \<longleftrightarrow> returncode res = 0)
        \<and> (fst (link_executable run object_files out option w)
               = Inl (RuntimeError (''Linking failed for '' @ out))
             \<longleftrightarrow> returncode res \<noteq> 0)
        \<and> (returncode res \<noteq> 0
             \<longrightarrow> printed (snd (link_executable run object_files out option w))
                   = printed w
                     @ [join '' '' [''Compile:'', join '' + '' object_files, ''->'', out],
                        stdout res, stderr res,
                        join '' '' ([''zig'', ''build-exe'', ''-femit-bin='' @ out]
                                     @ object_files @ option)]))"
  by (auto simp: link_executable_def link_executable_async_def launch_def print_def
      zig_compile_executable_def Let_def split: option.splits)

text \<open>
  Linking two objects with a failing and with a succeeding runner.
\<close>

theorem link_executable_result_witness:
  "fst (link_executable run_fail [''build/a.o'', ''build/b.o''] ''build/app'' [''-lSDL2''] w0)
     = Inl (RuntimeError ''Linking failed for build/app'')
   \<and> printed (snd (link_executable run_fail [''build/a.o'', ''build/b.o''] ''build/app''
                     [''-lSDL2''] w0))
     = [''Compile: build/a.o + build/b.o -> build/app'', ''out'', ''err'',
        ''zig build-exe -femit-bin=build/app build/a.o build/b.o -lSDL2'']
   \<and> fst (link_executable run_ok [''build/a.o'', ''build/b.o''] ''build/app'' [''-lSDL2''] w0)
     = Inr ''build/app''"
  using link_executable_result [of run_fail "[''build/a.o'', ''build/b.o'']" "''build/app''"
      "[''-lSDL2'']" w0
      "\<lparr>early_returncode = None, returncode = 1, stdout = ''out'', stderr = ''err''\<rparr>"]
    link_executable_result [of run_ok "[''build/a.o'', ''build/b.o'']" "''build/app''"
      "[''-lSDL2'']" w0
      "\<lparr>early_returncode = None, returncode = 0, stdout = [], stderr = []\<rparr>"]
  by (simp add: run_fail_def run_ok_def w0_def)

subsection \<open>The C and C++ compile task\<close>

text \<open>
  Claim C1 does not hold of the code. The C compiler is asked to compile
  \<open>src/a.c\<close> and exits with status 0, but it is still running when
  \<open>create_subprocess_exec\<close> returns. \<open>compile_c_source_async\<close> raises
  \<open>Compilation failed for src/a.c\<close> all the same, and has printed nothing but its
  own \<open>Compile:\<close> line: no stream of the child is captured.
\<close>

theorem compile_c_source_fails_on_exit_status_0:
  "run_ok [''zig'', ''cc'', ''-O'', ''Debug'', ''src/a.c'', ''-o'', ''build/a.o'']
     = Some \<lparr>early_returncode = None, returncode = 0, stdout = [], stderr = []\<rparr>
   \<and> compile_c_source_async run_ok ''src/a.c'' (Some ''build/a.o'') [''-O'', ''Debug''] w0
     = (Inl (RuntimeError ''Compilation failed for src/a.c''),
        w0\<lparr>launched := [[''zig'', ''cc'', ''-O'', ''Debug'', ''src/a.c'', ''-o'', ''build/a.o'']],
           printed := [''Compile: src/a.c -> build/a.o'']\<rparr>)"
  by (simp add: compile_c_source_async_def compile_source_c_cpp_async_def
      compile_source_c_cpp_spawn_def compile_source_c_cpp_resume_def c_compiler_def
      launch_def print_def run_ok_def w0_def Let_def)

subsection \<open>Source paths are mirrored below the build root\<close>

lemma split_on_not_Nil: "split_on c s \<noteq> []"
  by (induction s) (auto split: list.splits)

lemma split_on_append: "split_on c (a @ c # b) = split_on c a @ split_on c b"
  by (induction a) (auto split: list.splits simp: split_on_not_Nil)

lemma split_on_no_sep: "c \<notin> set s \<Longrightarrow> split_on c s = [s]"
  by (induction s) (auto split: list.splits)

lemma split_on_join:
  "xs \<noteq> [] \<Longrightarrow> list_all (\<lambda>x. c \<notin> set x) xs \<Longrightarrow> split_on c (join [c] xs) = xs"
proof (induction "[c]" xs rule: join.induct)
  case 1
  then show ?case by simp
next
  case (2 x)
  then show ?case by (simp add: split_on_no_sep)
next
  case (3 x y ys)
  then show ?case by (simp add: split_on_append split_on_no_sep)
qed

lemma split_on_parts: "list_all (\<lambda>x. c \<notin> set x) (split_on c s)"
  by (induction s) (auto split: list.splits)

lemma normpath_step_good:
  "list_all good acc \<Longrightarrow> CHR ''/'' \<notin> set x \<Longrightarrow> list_all good (normpath_step k x acc)"
  by (auto simp: normpath_step_def good_def list_all_iff dest: in_set_butlastD)

lemma fold_normpath_step_good:
  "list_all good acc \<Longrightarrow> list_all (\<lambda>x. CHR ''/'' \<notin> set x) xs
   \<Longrightarrow> list_all good (fold (normpath_step k) xs acc)"
  by (induction xs arbitrary: acc) (auto simp: normpath_step_good)

lemma fold_normpath_step_components:
  "list_all component R \<Longrightarrow> fold (normpath_step k) R acc = acc @ R"
  by (induction R arbitrary: acc) (auto simp: normpath_step_def component_def)

lemma normpath_step_nonzero: "k \<noteq> 0 \<Longrightarrow> normpath_step k = normpath_step (Suc 0)"
  by (auto simp: normpath_step_def fun_eq_iff)

lemma normpath_absolute:
  assumes "startswith P ''/''"
  shows "\<exists>k. k \<noteq> 0 \<and>
    normpath P = replicate k CHR ''/'' @ join ''/'' (fold (normpath_step (Suc 0)) (split_on CHR ''/'' P) [])"
proof -
  from assms have ne: "P \<noteq> []" by (auto simp: startswith_def)
  let ?k = "if startswith P ''//'' \<and> \<not> startswith P ''///'' then 2 else (1::nat)"
  have "normpath P = replicate ?k CHR ''/'' @ join ''/'' (fold (normpath_step ?k) (split_on CHR ''/'' P) [])"
    using assms ne by (simp add: normpath_def Let_def)
  moreover have "normpath_step ?k = normpath_step (Suc 0)"
    by (rule normpath_step_nonzero) simp
  ultimately show ?thesis
    by (intro exI[of _ ?k]) simp
qed

lemma filter_split_replicate:
  "filter (\<lambda>x. x \<noteq> []) (split_on CHR ''/'' (replicate k CHR ''/'' @ s))
   = filter (\<lambda>x. x \<noteq> []) (split_on CHR ''/'' s)"
  by (induction k) auto

lemma filter_split_join:
  assumes "list_all good L"
  shows "filter (\<lambda>x. x \<noteq> []) (split_on CHR ''/'' (join ''/'' L)) = L"
proof (cases "L = []")
  case True
  then show ?thesis by simp
next
  case False
  have "list_all (\<lambda>x. CHR ''/'' \<notin> set x) L"
    using assms by (auto simp: good_def list_all_iff)
  with False have "split_on CHR ''/'' (join ''/'' L) = L"
    using split_on_join[of L "CHR ''/''"] by simp
  moreover have "filter (\<lambda>x. x \<noteq> []) L = L"
    using assms by (auto simp: good_def list_all_iff filter_id_conv)
  ultimately show ?thesis by simp
qed

lemma commonprefix_append: "commonprefix L (L @ R) = L"
  by (induction L) auto

lemma replace_char_absent: "c \<notin> set s \<Longrightarrow> replace [c] new s = s"
  by (induction s) (auto simp: startswith_def)

lemma rsplit1_last_dot:
  "CHR ''.'' \<notin> set ext \<Longrightarrow> hd (rsplit1 CHR ''.'' (X @ CHR ''.'' # ext)) = X"
proof -
  assume a: "CHR ''.'' \<notin> set ext"
  then have "dropWhile (\<lambda>c. c \<noteq> CHR ''.'') (rev ext) = []"
    by auto
  then have "dropWhile (\<lambda>c. c \<noteq> CHR ''.'') (rev (X @ CHR ''.'' # ext)) = CHR ''.'' # rev X"
    by (simp add: dropWhile_append)
  then show ?thesis
    by (simp add: rsplit1_def)
qed

lemma join_append_last: "join sep (ds @ [a @ b]) = join sep (ds @ [a]) @ b"
  by (induction sep ds rule: join.induct) auto

lemma dirname_nonempty:
  assumes "CHR ''/'' \<in> set p"
  shows "dirname p \<noteq> []"
proof -
  let ?head = "rev (dropWhile (\<lambda>c. c \<noteq> CHR ''/'') (rev p))"
  have h: "?head \<noteq> []" using assms by auto
  show ?thesis
  proof (cases "list_all (\<lambda>c. c = CHR ''/'') ?head")
    case True
    with h show ?thesis by (simp add: dirname_def Let_def)
  next
    case False
    then have "dropWhile (\<lambda>c. c = CHR ''/'') (rev ?head) \<noteq> []"
      by (auto simp: list_all_iff)
    with False h show ?thesis by (simp add: dirname_def Let_def)
  qed
qed

lemma makedirs_exist_ok: "name \<noteq> [] \<Longrightarrow> \<exists>w'. makedirs name True w = Inr w' \<and> cwd w' = cwd w"
  by (auto simp: makedirs_def)

lemma relpath_under_start:
  assumes wd: "isabs wd" and s: "s \<noteq> []" and R: "list_all component R" "R \<noteq> []"
  shows "relpath wd (s @ ''/'' @ join ''/'' R) s = Inr (join ''/'' R)"
proof -
  let ?rel = "join ''/'' R"
  let ?Ps = "if isabs s then s else path_join wd s"
  let ?Pf = "if isabs (s @ ''/'' @ ?rel) then s @ ''/'' @ ?rel else path_join wd (s @ ''/'' @ ?rel)"
  obtain c cs where scs: "s = c # cs" using s by (cases s) auto
  obtain ws where wds: "wd = CHR ''/'' # ws" using wd by (cases wd) (auto simp: isabs_def startswith_def)
  have Pf: "?Pf = ?Ps @ ''/'' @ ?rel"
    by (simp add: isabs_def startswith_def path_join_def scs)
  have Ps_abs: "startswith ?Ps ''/''"
    by (auto simp: isabs_def startswith_def path_join_def scs wds)
  then have Pf_abs: "startswith (?Ps @ ''/'' @ ?rel) ''/''"
    by (cases ?Ps) (auto simp: startswith_def)
  define L where "L = fold (normpath_step (Suc 0)) (split_on CHR ''/'' ?Ps) []"
  have Rslash: "list_all (\<lambda>x. CHR ''/'' \<notin> set x) R"
    using R by (auto simp: component_def list_all_iff)
  have splitR: "split_on CHR ''/'' ?rel = R"
    using split_on_join[of R "CHR ''/''"] R Rslash by simp
  have goodL: "list_all good L"
    unfolding L_def by (rule fold_normpath_step_good) (simp_all add: split_on_parts)
  have goodLR: "list_all good (L @ R)"
    using goodL R by (auto simp: good_def component_def list_all_iff)
  obtain k1 where k1: "abspath wd s = replicate k1 CHR ''/'' @ join ''/'' L"
    using normpath_absolute[OF Ps_abs] unfolding abspath_def L_def by blast
  have "fold (normpath_step (Suc 0)) (split_on CHR ''/'' (?Ps @ ''/'' @ ?rel)) [] = L @ R"
    using split_on_append[of "CHR ''/''" ?Ps ?rel]
    by (simp add: splitR L_def fold_normpath_step_components[OF R(1)])
  then obtain k2 where k2: "abspath wd (s @ ''/'' @ ?rel) = replicate k2 CHR ''/'' @ join ''/'' (L @ R)"
    using normpath_absolute[OF Pf_abs] unfolding abspath_def Pf by auto
  have sl: "filter (\<lambda>x. x \<noteq> []) (split_on CHR ''/'' (abspath wd s)) = L"
    unfolding k1 by (simp only: filter_split_replicate filter_split_join[OF goodL])
  have pl: "filter (\<lambda>x. x \<noteq> []) (split_on CHR ''/'' (abspath wd (s @ ''/'' @ ?rel))) = L @ R"
    unfolding k2 by (simp only: filter_split_replicate filter_split_join[OF goodLR])
  show ?thesis
    unfolding relpath_def sl pl using R(2) s
    by (simp add: commonprefix_append Let_def)
qed


lemma set_join: "set (join sep xs) \<subseteq> set sep \<union> \<Union> (set ` set xs)"
  by (induction sep xs rule: join.induct) auto

lemma join_not_absolute:
  "xs \<noteq> [] \<Longrightarrow> list_all good xs \<Longrightarrow> \<not> startswith (join ''/'' xs) ''/''"
  by (induction "''/''" xs rule: join.induct) (auto simp: good_def startswith_def neq_Nil_conv)

lemma path_join_has_slash:
  assumes "b \<noteq> []" "\<not> startswith r ''/''"
  shows "CHR ''/'' \<in> set (path_join b r)"
proof (cases "endswith b ''/''")
  case True
  then have "CHR ''/'' \<in> set (rev b)"
    by (cases "rev b") (auto simp: endswith_def startswith_def)
  with True assms show ?thesis by (simp add: path_join_def)
next
  case False
  with assms show ?thesis by (simp add: path_join_def)
qed

lemma translate_to_build_path_twice:
  "fst (translate_to_build_path file_path source_dir build_dir
          (snd (translate_to_build_path file_path source_dir build_dir w)))
   = fst (translate_to_build_path file_path source_dir build_dir w)"
  by (auto simp: translate_to_build_path_def makedirs_def Let_def split: sum.splits)

lemma translate_to_build_path_under_root:
  assumes wd: "isabs (cwd w)" and s: "source_dir \<noteq> []" and b: "build_dir \<noteq> []"
    and ds: "list_all component ds"
    and stem: "CHR ''/'' \<notin> set stem" "CHR 0x5C \<notin> set stem"
    and ext: "ext = ''c'' \<or> ext = ''cpp''"
  shows "fst (translate_to_build_path
                (source_dir @ ''/'' @ join ''/'' (ds @ [stem @ ''.'' @ ext]))
                source_dir build_dir w)
         = Inr (path_join build_dir (join ''/'' (ds @ [stem @ ''.o''])))"
proof -
  let ?R = "ds @ [stem @ ''.'' @ ext]"
  let ?X = "join ''/'' (ds @ [stem])"
  have last_comp: "component (stem @ ''.'' @ ext)"
    using stem ext by (auto simp: component_def append_eq_Cons_conv)
  with ds have R: "list_all component ?R" "?R \<noteq> []" by simp_all
  have rel: "relpath (cwd w) (source_dir @ ''/'' @ join ''/'' ?R) source_dir = Inr (join ''/'' ?R)"
    by (rule relpath_under_start[OF wd s R])
  have relX: "join ''/'' ?R = ?X @ CHR ''.'' # ext"
    using join_append_last[of "''/''" ds stem "''.'' @ ext"] by simp
  have "CHR 0x5C \<notin> set (join ''/'' ?R)"
    using set_join[of "''/''" ?R] R(1) by (auto simp: component_def list_all_iff)
  then have rep: "replace [CHR 0x5C] ''/'' (join ''/'' ?R) = join ''/'' ?R"
    by (rule replace_char_absent)
  have dot: "CHR ''.'' \<notin> set ext" using ext by auto
  have hdX: "hd (rsplit1 CHR ''.'' (join ''/'' ?R)) = ?X"
    unfolding relX by (rule rsplit1_last_dot[OF dot])
  have Xo: "?X @ ''.o'' = join ''/'' (ds @ [stem @ ''.o''])"
    using join_append_last[of "''/''" ds stem "''.o''"] by simp
  have "list_all good (ds @ [stem @ ''.o''])"
    using ds stem by (auto simp: good_def component_def list_all_iff)
  then have "\<not> startswith (join ''/'' (ds @ [stem @ ''.o''])) ''/''"
    by (intro join_not_absolute) simp_all
  then have "CHR ''/'' \<in> set (path_join build_dir (join ''/'' (ds @ [stem @ ''.o''])))"
    by (rule path_join_has_slash[OF b])
  then have "dirname (path_join build_dir (join ''/'' (ds @ [stem @ ''.o'']))) \<noteq> []"
    by (rule dirname_nonempty)
  then obtain w' where
    "makedirs (dirname (path_join build_dir (join ''/'' (ds @ [stem @ ''.o''])))) True w = Inr w'"
    using makedirs_exist_ok by blast
  then show ?thesis
    by (simp add: translate_to_build_path_def rel rep hdX Xo Let_def del: append.simps)
qed

text \<open>
  Claim C6. With an absolute working directory, a C or C++ source path below the
  source root, \<open>source_dir/d1/.../dn/stem.ext\<close> with \<open>ext\<close> one of \<open>c\<close> and
  \<open>cpp\<close>, is translated to \<open>d1/.../dn/stem.o\<close> joined to the build root;
  \<open>src/a/b.cpp\<close> under \<open>src\<close> and \<open>build\<close> gives \<open>build/a/b.o\<close>; and
  translating any input a second time, in the world the first translation left, gives
  the result of the first.
\<close>

theorem translate_to_build_path_same_relative_path:
  assumes "isabs (cwd w)"
  shows "(source_dir \<noteq> [] \<and> build_dir \<noteq> [] \<and> list_all component ds
           \<and> CHR ''/'' \<notin> set stem \<and> CHR 0x5C \<notin> set stem \<and> (ext = ''c'' \<or> ext = ''cpp'')
          \<longrightarrow> fst (translate_to_build_path
                      (source_dir @ ''/'' @ join ''/'' (ds @ [stem @ ''.'' @ ext]))
                      source_dir build_dir w)
                = Inr (path_join build_dir (join ''/'' (ds @ [stem @ ''.o'']))))
         \<and> fst (translate_to_build_path ''src/a/b.cpp'' ''src'' ''build'' w) = Inr ''build/a/b.o''
         \<and> fst (translate_to_build_path file_path source_dir build_dir
                  (snd (translate_to_build_path file_path source_dir build_dir w)))
           = fst (translate_to_build_path file_path source_dir build_dir w)"
proof (intro conjI impI)
  assume "source_dir \<noteq> [] \<and> build_dir \<noteq> [] \<and> list_all component ds
           \<and> CHR ''/'' \<notin> set stem \<and> CHR 0x5C \<notin> set stem \<and> (ext = ''c'' \<or> ext = ''cpp'')"
  then show "fst (translate_to_build_path
                      (source_dir @ ''/'' @ join ''/'' (ds @ [stem @ ''.'' @ ext]))
                      source_dir build_dir w)
                = Inr (path_join build_dir (join ''/'' (ds @ [stem @ ''.o''])))"
    using translate_to_build_path_under_root[OF assms] by blast
next
  show "fst (translate_to_build_path ''src/a/b.cpp'' ''src'' ''build'' w) = Inr ''build/a/b.o''"
    using translate_to_build_path_under_root[OF assms, of "''src''" "''build''" "[''a'']"
        "''b''" "''cpp''"]
    by (simp add: component_def path_join_def startswith_def endswith_def)
next
  show "fst (translate_to_build_path file_path source_dir build_dir
                  (snd (translate_to_build_path file_path source_dir build_dir w)))
           = fst (translate_to_build_path file_path source_dir build_dir w)"
    by (rule translate_to_build_path_twice)
qed

text \<open>
  A C++ file two directories below the source root, with the build root \<open>out\<close>.
\<close>

theorem translate_to_build_path_same_relative_path_witness:
  "isabs (cwd w0)
   \<and> list_all component [''engine'', ''render'']
   \<and> fst (translate_to_build_path ''src/engine/render/mesh.cpp'' ''src'' ''out'' w0)
     = Inr ''out/engine/render/mesh.o''
   \<and> fst (translate_to_build_path ''src/a/b.cpp'' ''src'' ''build'' w0) = Inr ''build/a/b.o''"
proof -
  have h: "isabs (cwd w0)"
    by (simp add: w0_def isabs_def startswith_def)
  show ?thesis
    using h translate_to_build_path_same_relative_path [OF h, of "''src''" "''out''"
        "[''engine'', ''render'']" "''mesh''" "''cpp''"]
    by (simp add: component_def path_join_def startswith_def endswith_def)
qed

subsection \<open>Rewriting artifact names for a Windows target\<close>

text \<open>
  Claim C5 does not hold of the code. The source file \<open>src/a.old/b.c\<close> is translated
  to the artifact \<open>build/a.old/b.o\<close>. On a Windows target the rewriting turns it into
  \<open>build/a.objld/b.obj\<close>: the directory name has changed too, because \<open>str.replace\<close>
  replaces every occurrence of \<open>.o\<close>. The output name does get \<open>.exe\<close> appended.
\<close>

theorem adapt_to_target_rewrites_directory_name:
  "fst (translate_to_build_path ''src/a.old/b.c'' ''src'' ''build'' w0) = Inr ''build/a.old/b.o''
   \<and> adapt_to_target True [''build/a.old/b.o''] ''build/app''
     = ([''build/a.objld/b.obj''], ''build/app.exe'')"
  by (simp add: translate_to_build_path_def adapt_to_target_def w0_def path_defs)

subsection \<open>The event loop keeps its invariant\<close>

lemma coroutine_spawn_eq:
  "coroutine_spawn run t w
   = ((command_of t, run (command_of t)),
      w\<lparr>printed := printed w @ [join '' '' [''Compile:'', task_file t, ''->'', artifact t]],
        launched := launched w @ [command_of t]\<rparr>)"
  by (cases "task_fun t")
    (simp_all add: coroutine_spawn_def command_of_def artifact_def compile_zig_source_spawn_def
      compile_source_c_cpp_spawn_def launch_def print_def Let_def)

lemma coroutine_resume_result:
  "fst (coroutine_resume t command res w)
   = (if passes t res then Inr (artifact t)
      else Inl (RuntimeError (''Compilation failed for '' @ task_file t)))"
  by (cases "task_fun t")
    (simp_all add: coroutine_resume_def passes_def artifact_def compile_zig_source_resume_def
      compile_source_c_cpp_resume_def)

lemma coroutine_resume_launched:
  "launched (snd (coroutine_resume t command res w)) = launched w"
  by (cases "task_fun t")
    (simp_all add: coroutine_resume_def compile_zig_source_resume_def
      compile_source_c_cpp_resume_def print_def)

lemma run_loop_Nil: "run_loop run [] l = l"
  by (simp add: run_loop_def)

lemma run_loop_Cons: "run_loop run (ev # evs) l = run_loop run evs (turn run ev l)"
  by (simp add: run_loop_def)

lemma run_loop_append: "run_loop run (xs @ ys) l = run_loop run ys (run_loop run xs l)"
  by (simp add: run_loop_def)

lemma run_loop_invariant:
  assumes "P l" and "\<And>l ev. P l \<Longrightarrow> P (turn run ev l)"
  shows "P (run_loop run schedule l)"
  using assms(1)
proof (induction schedule arbitrary: l)
  case Nil
  then show ?case by (simp only: run_loop_Nil)
next
  case (Cons ev evs)
  have "P (turn run ev l)" by (rule assms(2)) (rule Cons.prems)
  then have "P (run_loop run evs (turn run ev l))" by (rule Cons.IH)
  then show ?case by (simp only: run_loop_Cons)
qed

lemma length_filter_update:
  "i < length xs \<Longrightarrow>
   length (filter P (xs[i := v])) + (if P (xs ! i) then 1 else 0)
   = length (filter P xs) + (if P v then 1 else 0)"
proof (induction xs arbitrary: i)
  case Nil
  then show ?case by simp
next
  case (Cons x xs)
  then show ?case by (cases i) auto
qed

lemma list_all_update: "list_all P xs \<Longrightarrow> P v \<Longrightarrow> list_all P (xs[i := v])"
proof (induction xs arbitrary: i)
  case Nil
  then show ?case by simp
next
  case (Cons x xs)
  then show ?case by (cases i) auto
qed

lemma list_ex_update_same:
  "i < length xs \<Longrightarrow> P v = P (xs ! i) \<Longrightarrow> list_ex P (xs[i := v]) = list_ex P xs"
proof (induction xs arbitrary: i)
  case Nil
  then show ?case by simp
next
  case (Cons x xs)
  then show ?case by (cases i) auto
qed

lemma list_ex_update_intro: "i < length xs \<Longrightarrow> P v \<Longrightarrow> list_ex P (xs[i := v])"
  by (auto simp: list_ex_iff intro: set_update_memI)

lemma list_ex_update_keep:
  "i < length xs \<Longrightarrow> \<not> P (xs ! i) \<Longrightarrow> list_ex P xs \<Longrightarrow> list_ex P (xs[i := v])"
proof (induction xs arbitrary: i)
  case Nil
  then show ?case by simp
next
  case (Cons x xs)
  then show ?case by (cases i) auto
qed

lemma list_ex_update_none:
  "\<not> list_ex P xs \<Longrightarrow> \<not> P v \<Longrightarrow> \<not> list_ex P (xs[i := v])"
proof (induction xs arbitrary: i)
  case Nil
  then show ?case by simp
next
  case (Cons x xs)
  then show ?case by (cases i) auto
qed


lemma limit_thread_step_cases [consumes 0, case_names idle nostart start finish]:
  obtains
    (idle) "limit_thread_step run i l = l"
  | (nostart) ts where "\<not> closed l" "i < length (tasks l)" "ts = tasks l ! i"
      "phase ts = Pending" "sem_value l \<noteq> 0" "run (command_of (job ts)) = None"
      "limit_thread_step run i l
       = l\<lparr>tasks := (tasks l)[i := ts\<lparr>phase := Done (Inl FileNotFoundError),
                                        acquires := acquires ts + 1,
                                        releases := releases ts + 1,
                                        spawns := spawns ts + 1\<rparr>],
           raised := propagate (Inl FileNotFoundError) (raised l),
           env := snd (coroutine_spawn run (job ts) (env l))\<rparr>"
  | (start) ts res where "\<not> closed l" "i < length (tasks l)" "ts = tasks l ! i"
      "phase ts = Pending" "sem_value l \<noteq> 0" "run (command_of (job ts)) = Some res"
      "limit_thread_step run i l
       = l\<lparr>tasks := (tasks l)[i := ts\<lparr>phase := Running (command_of (job ts)) res,
                                        acquires := acquires ts + 1,
                                        spawns := spawns ts + 1\<rparr>],
           sem_value := sem_value l - 1,
           env := snd (coroutine_spawn run (job ts) (env l))\<rparr>"
  | (finish) ts command res where "\<not> closed l" "i < length (tasks l)" "ts = tasks l ! i"
      "phase ts = Running command res"
      "limit_thread_step run i l
       = l\<lparr>tasks := (tasks l)[i := ts\<lparr>phase := Done (fst (coroutine_resume (job ts) command res (env l))),
                                        releases := releases ts + 1\<rparr>],
           sem_value := sem_value l + 1,
           raised := propagate (fst (coroutine_resume (job ts) command res (env l))) (raised l),
           env := snd (coroutine_resume (job ts) command res (env l))\<rparr>"
proof (cases "closed l \<or> length (tasks l) \<le> i")
  case True
  then have "limit_thread_step run i l = l" by (simp add: limit_thread_step_def)
  then show ?thesis by (rule idle)
next
  case False
  then have nc: "\<not> closed l" and i: "i < length (tasks l)" by auto
  define ts where "ts = tasks l ! i"
  show ?thesis
  proof (cases "phase ts")
    case Pending
    show ?thesis
    proof (cases "sem_value l = 0")
      case True
      with Pending nc i have "limit_thread_step run i l = l"
        by (simp add: limit_thread_step_def ts_def Let_def)
      then show ?thesis by (rule idle)
    next
      case sem: False
      show ?thesis
      proof (cases "run (command_of (job ts))")
        case None
        with Pending nc i sem show ?thesis
          by (intro nostart[of ts]) (simp_all add: limit_thread_step_def ts_def coroutine_spawn_eq Let_def)
      next
        case (Some res)
        with Pending nc i sem show ?thesis
          by (intro start[of ts res]) (simp_all add: limit_thread_step_def ts_def coroutine_spawn_eq Let_def)
      qed
    qed
  next
    case (Running command res)
    with nc i show ?thesis
      by (intro finish[of ts command res])
        (simp_all add: limit_thread_step_def ts_def Let_def split: prod.splits)
  next
    case (Done r)
    with nc i have "limit_thread_step run i l = l"
      by (simp add: limit_thread_step_def ts_def Let_def)
    then show ?thesis by (rule idle)
  next
    case Cancelled
    with nc i have "limit_thread_step run i l = l"
      by (simp add: limit_thread_step_def ts_def Let_def)
    then show ?thesis by (rule idle)
  qed
qed

lemma limit_thread_step_jobs: "map job (tasks (limit_thread_step run i l)) = map job (tasks l)"
  by (cases rule: limit_thread_step_cases[of run i l])
    (simp_all add: map_update list_update_same_conv)

lemma limit_thread_step_task_ok:
  assumes "list_all (task_ok run) (tasks l)"
  shows "list_all (task_ok run) (tasks (limit_thread_step run i l))"
proof (cases rule: limit_thread_step_cases[of run i l])
  case idle
  with assms show ?thesis by simp
next
  case (nostart ts)
  with assms have "task_ok run ts" by (simp add: list_all_length)
  with nostart assms show ?thesis
    by (auto intro!: list_all_update simp: task_ok_def)
next
  case (start ts res)
  with assms have "task_ok run ts" by (simp add: list_all_length)
  with start assms show ?thesis
    by (auto intro!: list_all_update simp: task_ok_def)
next
  case (finish ts command res)
  with assms have "task_ok run ts" by (simp add: list_all_length)
  with finish assms show ?thesis
    by (auto intro!: list_all_update simp: task_ok_def coroutine_resume_result split: option.splits)
qed

lemma limit_thread_step_permits:
  assumes "length (filter is_running (tasks l)) + sem_value l = c"
  shows "length (filter is_running (tasks (limit_thread_step run i l)))
         + sem_value (limit_thread_step run i l) = c"
proof (cases rule: limit_thread_step_cases[of run i l])
  case idle
  with assms show ?thesis by simp
next
  case (nostart ts)
  then show ?thesis
    using assms length_filter_update[of i "tasks l" is_running
        "ts\<lparr>phase := Done (Inl FileNotFoundError), acquires := acquires ts + 1,
           releases := releases ts + 1, spawns := spawns ts + 1\<rparr>"]
    by (simp add: is_running_def)
next
  case (start ts res)
  then show ?thesis
    using assms length_filter_update[of i "tasks l" is_running
        "ts\<lparr>phase := Running (command_of (job ts)) res, acquires := acquires ts + 1,
           spawns := spawns ts + 1\<rparr>"]
    by (simp add: is_running_def)
next
  case (finish ts command res)
  then show ?thesis
    using assms length_filter_update[of i "tasks l" is_running
        "ts\<lparr>phase := Done (fst (coroutine_resume (job ts) command res (env l))),
           releases := releases ts + 1\<rparr>"]
    by (simp add: is_running_def)
qed


lemma limit_thread_step_raised_ok:
  assumes "raised_ok l"
  shows "raised_ok (limit_thread_step run i l)"
proof (cases rule: limit_thread_step_cases[of run i l])
  case idle
  with assms show ?thesis by simp
next
  case (nostart ts)
  show ?thesis
  proof (cases "raised l")
    case None
    with nostart show ?thesis
      by (simp add: raised_ok_def propagate_def list_ex_update_intro)
  next
    case (Some e)
    with assms have "list_ex (\<lambda>ts. phase ts = Done (Inl e)) (tasks l)"
      by (simp add: raised_ok_def)
    with nostart Some show ?thesis
      by (simp add: raised_ok_def propagate_def list_ex_update_keep)
  qed
next
  case (start ts res)
  show ?thesis
  proof (cases "raised l")
    case None
    with assms have "\<not> list_ex is_failed (tasks l)"
      by (simp add: raised_ok_def)
    with start None show ?thesis
      by (simp add: raised_ok_def list_ex_update_none is_failed_def)
  next
    case (Some e)
    with assms have "list_ex (\<lambda>ts. phase ts = Done (Inl e)) (tasks l)"
      by (simp add: raised_ok_def)
    with start Some show ?thesis
      by (simp add: raised_ok_def list_ex_update_keep)
  qed
next
  case (finish ts command res)
  let ?r = "fst (coroutine_resume (job ts) command res (env l))"
  show ?thesis
  proof (cases "raised l")
    case None
    with assms have nf: "\<not> list_ex is_failed (tasks l)"
      by (simp add: raised_ok_def)
    show ?thesis
    proof (cases ?r)
      case (Inl e)
      with finish None show ?thesis
        by (simp add: raised_ok_def propagate_def list_ex_update_intro)
    next
      case (Inr path)
      with finish None nf show ?thesis
        by (simp add: raised_ok_def propagate_def list_ex_update_none is_failed_def)
    qed
  next
    case (Some e)
    with assms have "list_ex (\<lambda>ts. phase ts = Done (Inl e)) (tasks l)"
      by (simp add: raised_ok_def)
    with finish Some show ?thesis
      by (simp add: raised_ok_def propagate_def list_ex_update_keep)
  qed
qed

lemma limit_thread_step_closed_ok:
  assumes "closed_ok l"
  shows "closed_ok (limit_thread_step run i l)"
proof (cases rule: limit_thread_step_cases[of run i l])
  case idle
  with assms show ?thesis by simp
next
  case (nostart ts)
  with assms show ?thesis
    by (simp add: closed_ok_def list_ex_update_none is_cancelled_def)
next
  case (start ts res)
  with assms show ?thesis
    by (simp add: closed_ok_def list_ex_update_none is_cancelled_def)
next
  case (finish ts command res)
  with assms show ?thesis
    by (simp add: closed_ok_def list_ex_update_none is_cancelled_def)
qed

lemma main_raises_cases [consumes 0, case_names idle close]:
  obtains
    (idle) "main_raises l = l"
  | (close) e where "\<not> closed l" "raised l = Some e"
      "main_raises l
       = l\<lparr>tasks := map cancel (tasks l),
           sem_value := sem_value l + length (filter is_running (tasks l)),
           closed := True\<rparr>"
  by (cases "closed l"; cases "raised l") (auto simp: main_raises_def)

lemma job_cancel: "job (cancel ts) = job ts"
  by (simp add: cancel_def split: phase.splits)

lemma task_ok_cancel: "task_ok run ts \<Longrightarrow> task_ok run (cancel ts)"
  by (auto simp: cancel_def task_ok_def split: phase.splits)

lemma not_running_cancel: "\<not> is_running (cancel ts)"
  by (simp add: cancel_def is_running_def split: phase.splits)

lemma settled_cancel: "is_settled (cancel ts)"
  by (simp add: cancel_def is_settled_def split: phase.splits)

lemma done_cancel: "phase ts = Done r \<Longrightarrow> phase (cancel ts) = Done r"
  by (simp add: cancel_def)

lemma main_raises_jobs: "map job (tasks (main_raises l)) = map job (tasks l)"
  by (cases rule: main_raises_cases[of l]) (simp_all add: job_cancel comp_def)

lemma main_raises_task_ok:
  "list_all (task_ok run) (tasks l) \<Longrightarrow> list_all (task_ok run) (tasks (main_raises l))"
  by (cases rule: main_raises_cases[of l]) (simp_all add: list_all_iff task_ok_cancel)

lemma main_raises_permits:
  assumes "length (filter is_running (tasks l)) + sem_value l = c"
  shows "length (filter is_running (tasks (main_raises l))) + sem_value (main_raises l) = c"
proof (cases rule: main_raises_cases[of l])
  case idle
  with assms show ?thesis by simp
next
  case (close e)
  have "filter is_running (map cancel (tasks l)) = []"
    by (simp add: filter_empty_conv not_running_cancel)
  with close assms show ?thesis by simp
qed

lemma main_raises_raised_ok:
  assumes "raised_ok l"
  shows "raised_ok (main_raises l)"
proof (cases rule: main_raises_cases[of l])
  case idle
  with assms show ?thesis by simp
next
  case (close e)
  with assms have "list_ex (\<lambda>ts. phase ts = Done (Inl e)) (tasks l)"
    by (simp add: raised_ok_def)
  then have "list_ex (\<lambda>ts. phase ts = Done (Inl e)) (map cancel (tasks l))"
    by (auto simp: list_ex_iff intro: done_cancel)
  with close show ?thesis by (simp add: raised_ok_def)
qed

lemma main_raises_closed_ok:
  assumes "closed_ok l"
  shows "closed_ok (main_raises l)"
proof (cases rule: main_raises_cases[of l])
  case idle
  with assms show ?thesis by simp
next
  case (close e)
  then show ?thesis by (simp add: closed_ok_def list_all_iff settled_cancel)
qed

lemma loop_inv_parts:
  "loop_inv run c ts l \<longleftrightarrow>
     map job (tasks l) = ts \<and> list_all (task_ok run) (tasks l)
     \<and> length (filter is_running (tasks l)) + sem_value l = c \<and> raised_ok l \<and> closed_ok l"
  by (simp add: loop_inv_def raised_ok_def closed_ok_def)

lemma loop_inv_turn:
  assumes "loop_inv run c ts l"
  shows "loop_inv run c ts (turn run ev l)"
proof (cases ev)
  case (Resume i)
  with assms show ?thesis
    unfolding loop_inv_parts turn_def
    by (simp add: limit_thread_step_jobs limit_thread_step_task_ok limit_thread_step_permits
        limit_thread_step_raised_ok limit_thread_step_closed_ok)
next
  case MainRaises
  with assms show ?thesis
    unfolding loop_inv_parts turn_def
    by (simp add: main_raises_jobs main_raises_task_ok main_raises_permits
        main_raises_raised_ok main_raises_closed_ok)
qed

lemma loop_inv_start: "loop_inv run c ts (start_loop c ts w)"
  unfolding loop_inv_parts
  by (simp add: start_loop_def new_task_def comp_def raised_ok_def closed_ok_def
      list_all_iff list_ex_iff task_ok_def is_failed_def is_cancelled_def is_running_def)

lemma loop_inv_run_loop: "loop_inv run c ts (run_loop run schedule (start_loop c ts w))"
  by (rule run_loop_invariant) (rule loop_inv_start, rule loop_inv_turn)


lemma sum_list_map_update:
  fixes f :: "'a \<Rightarrow> nat"
  shows "i < length xs \<Longrightarrow>
    sum_list (map f (xs[i := v])) + f (xs ! i) = sum_list (map f xs) + f v"
proof (induction xs arbitrary: i)
  case Nil
  then show ?case by simp
next
  case (Cons x xs)
  then show ?case by (cases i) auto
qed

lemma trace_ok_spawn:
  assumes tr: "trace_ok w l" and i: "i < length (tasks l)" and ts: "ts = tasks l ! i"
    and zero: "spawns ts = 0"
    and job': "job ts' = job ts" and one: "spawns ts' = 1"
    and l': "tasks l' = (tasks l)[i := ts']"
      "launched (env l') = launched (env l) @ [command_of (job ts)]"
  shows "trace_ok w l'"
proof -
  from tr obtain X where X: "launched (env l) = launched w @ X"
      "length X = sum_list (map spawns (tasks l))"
      "\<forall>command\<in>set X. \<exists>j<length (tasks l).
          command = command_of (job (tasks l ! j)) \<and> spawns (tasks l ! j) = 1"
      "\<forall>j<length (tasks l). spawns (tasks l ! j) = 1
          \<longrightarrow> command_of (job (tasks l ! j)) \<in> set X"
    unfolding trace_ok_def by blast
  let ?X = "X @ [command_of (job ts)]"
  have a: "launched (env l') = launched w @ ?X"
    using l'(2) X(1) by simp
  have b: "length ?X = sum_list (map spawns (tasks l'))"
    using sum_list_map_update[OF i, of spawns ts'] X(2) zero one ts l'(1) by simp
  have c: "\<exists>j<length (tasks l'). command = command_of (job (tasks l' ! j))
              \<and> spawns (tasks l' ! j) = 1" if "command \<in> set ?X" for command
  proof (cases "command \<in> set X")
    case True
    with X(3) obtain j where j: "j < length (tasks l)"
        "command = command_of (job (tasks l ! j))" "spawns (tasks l ! j) = 1"
      by blast
    with zero ts have "j \<noteq> i" by auto
    with j l'(1) show ?thesis by (intro exI[of _ j]) simp
  next
    case False
    with that have "command = command_of (job ts)" by simp
    with i l'(1) job' one show ?thesis by (intro exI[of _ i]) simp
  qed
  have d: "command_of (job (tasks l' ! j)) \<in> set ?X"
    if "j < length (tasks l')" "spawns (tasks l' ! j) = 1" for j
  proof (cases "j = i")
    case True
    with i l'(1) job' show ?thesis by simp
  next
    case False
    with that l'(1) X(4) show ?thesis by simp
  qed
  show ?thesis
    unfolding trace_ok_def using a b c d by blast
qed

lemma trace_ok_same:
  assumes tr: "trace_ok w l"
    and l': "map job (tasks l') = map job (tasks l)" "map spawns (tasks l') = map spawns (tasks l)"
      "launched (env l') = launched (env l)"
  shows "trace_ok w l'"
proof -
  have len: "length (tasks l') = length (tasks l)"
    using l'(1) by (rule map_eq_imp_length_eq)
  have nth: "job (tasks l' ! j) = job (tasks l ! j) \<and> spawns (tasks l' ! j) = spawns (tasks l ! j)"
    if "j < length (tasks l)" for j
    using that l'(1,2) len by (metis nth_map)
  show ?thesis
    using tr unfolding trace_ok_def l'(2,3) len
    by (metis nth)
qed

lemma limit_thread_step_trace_ok:
  assumes "trace_ok w l" and ok: "list_all (task_ok run) (tasks l)"
  shows "trace_ok w (limit_thread_step run i l)"
proof (cases rule: limit_thread_step_cases[of run i l])
  case idle
  with assms show ?thesis by simp
next
  case (nostart ts)
  with ok have "task_ok run ts" by (simp add: list_all_length)
  with nostart have zero: "spawns ts = 0" by (simp add: task_ok_def)
  show ?thesis
    by (rule trace_ok_spawn[OF assms(1) nostart(2) nostart(3) zero, where
          ts' = "ts\<lparr>phase := Done (Inl FileNotFoundError), acquires := acquires ts + 1,
                    releases := releases ts + 1, spawns := spawns ts + 1\<rparr>"])
      (simp_all add: nostart(7) zero coroutine_spawn_eq)
next
  case (start ts res)
  with ok have "task_ok run ts" by (simp add: list_all_length)
  with start have zero: "spawns ts = 0" by (simp add: task_ok_def)
  show ?thesis
    by (rule trace_ok_spawn[OF assms(1) start(2) start(3) zero, where
          ts' = "ts\<lparr>phase := Running (command_of (job ts)) res, acquires := acquires ts + 1,
                    spawns := spawns ts + 1\<rparr>"])
      (simp_all add: start(7) zero coroutine_spawn_eq)
next
  case (finish ts command res)
  show ?thesis
    by (rule trace_ok_same[OF assms(1)])
      (simp_all add: finish(5) finish(3) map_update list_update_same_conv finish(2)
        coroutine_resume_launched)
qed

lemma spawns_cancel: "spawns (cancel ts) = spawns ts"
  by (simp add: cancel_def split: phase.splits)

lemma main_raises_trace_ok:
  assumes "trace_ok w l"
  shows "trace_ok w (main_raises l)"
proof (cases rule: main_raises_cases[of l])
  case idle
  with assms show ?thesis by simp
next
  case (close e)
  show ?thesis
    by (rule trace_ok_same[OF assms]) (simp_all add: close(3) comp_def job_cancel spawns_cancel)
qed

lemma trace_ok_start: "trace_ok w (start_loop c ts w)"
  by (simp add: trace_ok_def start_loop_def new_task_def comp_def)

lemma trace_ok_run_loop: "trace_ok w (run_loop run schedule (start_loop c ts w))"
proof -
  have "loop_inv run c ts (run_loop run schedule (start_loop c ts w))
        \<and> trace_ok w (run_loop run schedule (start_loop c ts w))"
  proof (rule run_loop_invariant)
    show "loop_inv run c ts (start_loop c ts w) \<and> trace_ok w (start_loop c ts w)"
      by (simp add: loop_inv_start trace_ok_start)
  next
    fix l ev
    assume a: "loop_inv run c ts l \<and> trace_ok w l"
    then have ok: "list_all (task_ok run) (tasks l)" by (simp add: loop_inv_parts)
    have "trace_ok w (turn run ev l)"
      using a ok by (cases ev) (simp_all add: turn_def limit_thread_step_trace_ok main_raises_trace_ok)
    with a show "loop_inv run c ts (turn run ev l) \<and> trace_ok w (turn run ev l)"
      by (simp add: loop_inv_turn)
  qed
  then show ?thesis by simp
qed


lemma collect_Some_iff:
  "collect xs = Some ps \<longleftrightarrow> map phase xs = map (\<lambda>p. Done (Inr p)) ps"
proof (induction xs arbitrary: ps)
  case Nil
  then show ?case by auto
next
  case (Cons x xs)
  then show ?case
    by (cases ps) (auto split: phase.splits sum.splits)
qed

lemma collect_None_iff:
  "collect xs = None \<longleftrightarrow> list_ex (\<lambda>ts. \<forall>p. phase ts \<noteq> Done (Inr p)) xs"
  by (induction xs) (auto split: phase.splits sum.splits)

lemma gather_tasks_artifacts:
  assumes "loop_inv run c ts l" and "gather_tasks l = Some (Inr paths)"
  shows "paths = map artifact ts"
proof -
  from assms(1) have jobs: "map job (tasks l) = ts"
    and ok: "list_all (task_ok run) (tasks l)"
    and cl: "closed_ok l"
    by (simp_all add: loop_inv_parts)
  from assms(2) cl have "collect (tasks l) = Some paths"
    by (auto simp: gather_tasks_def closed_ok_def split: if_splits)
  then have ph: "map phase (tasks l) = map (\<lambda>p. Done (Inr p)) paths"
    by (simp add: collect_Some_iff)
  then have len: "length paths = length (tasks l)"
    by (metis length_map)
  have "paths ! i = artifact (job (tasks l ! i))" if "i < length (tasks l)" for i
  proof -
    from ph that len have "phase (tasks l ! i) = Done (Inr (paths ! i))"
      by (metis nth_map)
    moreover from ok that have "task_ok run (tasks l ! i)"
      by (simp add: list_all_length)
    ultimately show ?thesis by (simp add: task_ok_def)
  qed
  then have "paths = map (\<lambda>x. artifact (job x)) (tasks l)"
    using len by (intro nth_equalityI) simp_all
  with jobs show ?thesis by (auto simp: comp_def)
qed

lemma finished_fixed:
  assumes inv: "loop_inv run c ts l" and fin: "gather_tasks l \<noteq> None"
  shows "turn run ev l = l"
proof (cases "closed l")
  case True
  then show ?thesis
    by (cases ev) (simp_all add: turn_def limit_thread_step_def main_raises_def)
next
  case False
  with fin obtain paths where "collect (tasks l) = Some paths"
    by (auto simp: gather_tasks_def)
  then have ph: "map phase (tasks l) = map (\<lambda>p. Done (Inr p)) paths"
    by (simp add: collect_Some_iff)
  then have len: "length paths = length (tasks l)"
    by (metis length_map)
  have dn: "phase (tasks l ! i) = Done (Inr (paths ! i))" if "i < length (tasks l)" for i
    using ph that len by (metis nth_map)
  have nofail: "\<not> list_ex is_failed (tasks l)"
    using dn by (auto simp: list_ex_iff is_failed_def in_set_conv_nth)
  have "raised l = None"
  proof (cases "raised l")
    case None
    then show ?thesis .
  next
    case (Some e)
    with inv have "list_ex (\<lambda>ts. phase ts = Done (Inl e)) (tasks l)"
      by (simp add: loop_inv_parts raised_ok_def)
    with dn show ?thesis
      by (auto simp: list_ex_iff in_set_conv_nth)
  qed
  show ?thesis
  proof (cases ev)
    case (Resume i)
    show ?thesis
    proof (cases "i < length (tasks l)")
      case True
      with dn[OF True] Resume show ?thesis
        by (simp add: turn_def limit_thread_step_def Let_def)
    next
      case False
      with Resume show ?thesis by (simp add: turn_def limit_thread_step_def)
    qed
  next
    case MainRaises
    with \<open>raised l = None\<close> show ?thesis by (simp add: turn_def main_raises_def)
  qed
qed

lemma finished_stays:
  assumes "loop_inv run c ts l" and "gather_tasks l \<noteq> None"
  shows "run_loop run extra l = l"
  using assms
  by (induction extra) (simp_all add: run_loop_Nil run_loop_Cons finished_fixed)

lemma work_update:
  assumes "i < length (tasks l)" and "tasks l' = (tasks l)[i := ts']"
  shows "work l' + (case phase (tasks l ! i) of Pending \<Rightarrow> 2 | Running command res \<Rightarrow> 1 | _ \<Rightarrow> 0)
         = work l + (case phase ts' of Pending \<Rightarrow> 2 | Running command res \<Rightarrow> 1 | _ \<Rightarrow> 0)"
  unfolding work_def assms(2)
  by (rule sum_list_map_update[OF assms(1)])

lemma list_ex_nth: "i < length xs \<Longrightarrow> P (xs ! i) \<Longrightarrow> list_ex P xs"
  by (auto simp: list_ex_iff)

lemma progress_step:
  assumes inv: "loop_inv run c ts l" and c: "0 < c" and nf: "gather_tasks l = None"
  shows "\<exists>ev. gather_tasks (turn run ev l) \<noteq> None \<or> work (turn run ev l) < work l"
proof -
  from inv have perm: "length (filter is_running (tasks l)) + sem_value l = c"
    and ro: "raised_ok l" and co: "closed_ok l"
    by (simp_all add: loop_inv_parts)
  have nc: "\<not> closed l"
    using nf co by (auto simp: gather_tasks_def closed_ok_def)
  show ?thesis
  proof (cases "raised l")
    case (Some e)
    with nc have "gather_tasks (turn run MainRaises l) = Some (Inl e)"
      by (simp add: turn_def main_raises_def gather_tasks_def)
    then show ?thesis by (intro exI[of _ MainRaises]) simp
  next
    case None
    with ro have nofail: "\<not> list_ex is_failed (tasks l)" by (simp add: raised_ok_def)
    from co nc have nocancel: "\<not> list_ex is_cancelled (tasks l)" by (simp add: closed_ok_def)
    from nf nc have "collect (tasks l) = None" by (simp add: gather_tasks_def)
    then obtain i where i: "i < length (tasks l)"
      and open_i: "\<forall>p. phase (tasks l ! i) \<noteq> Done (Inr p)"
      by (auto simp: collect_None_iff list_ex_iff in_set_conv_nth)
    show ?thesis
    proof (cases "list_ex is_running (tasks l)")
      case True
      then obtain j where j: "j < length (tasks l)" and "is_running (tasks l ! j)"
        by (auto simp: list_ex_iff in_set_conv_nth)
      then obtain command res where ph: "phase (tasks l ! j) = Running command res"
        by (auto simp: is_running_def split: phase.splits)
      have "work (turn run (Resume j) l) + 1 = work l"
        using work_update[OF j, of "limit_thread_step run j l"
            "(tasks l ! j)\<lparr>phase := Done (fst (coroutine_resume (job (tasks l ! j)) command res (env l))),
               releases := releases (tasks l ! j) + 1\<rparr>"] ph nc j
        by (simp add: turn_def limit_thread_step_def Let_def split: prod.splits)
      then show ?thesis by (intro exI[of _ "Resume j"]) simp
    next
      case False
      then have "filter is_running (tasks l) = []"
        by (simp add: filter_empty_conv list_ex_iff)
      with perm c have sem: "sem_value l \<noteq> 0" by simp
      have "phase (tasks l ! i) = Pending"
      proof (cases "phase (tasks l ! i)")
        case Pending
        then show ?thesis .
      next
        case (Running command res)
        then have "is_running (tasks l ! i)" by (simp add: is_running_def)
        with i False show ?thesis by (auto dest: list_ex_nth)
      next
        case (Done r)
        show ?thesis
        proof (cases r)
          case (Inl e)
          with Done have "is_failed (tasks l ! i)" by (simp add: is_failed_def)
          with i nofail show ?thesis by (auto dest: list_ex_nth)
        next
          case (Inr p)
          with Done open_i show ?thesis by simp
        qed
      next
        case Cancelled
        then have "is_cancelled (tasks l ! i)" by (simp add: is_cancelled_def)
        with i nocancel show ?thesis by (auto dest: list_ex_nth)
      qed
      then have "work (turn run (Resume i) l) < work l"
        using nc i sem
          work_update[OF i, of "limit_thread_step run i l"
            "(tasks l ! i)\<lparr>phase := Done (Inl FileNotFoundError),
               acquires := acquires (tasks l ! i) + 1, releases := releases (tasks l ! i) + 1,
               spawns := spawns (tasks l ! i) + 1\<rparr>"]
          work_update[OF i, of "limit_thread_step run i l"
            "(tasks l ! i)\<lparr>phase := Running (command_of (job (tasks l ! i)))
                  (the (run (command_of (job (tasks l ! i))))),
               acquires := acquires (tasks l ! i) + 1,
               spawns := spawns (tasks l ! i) + 1\<rparr>"]
        by (cases "run (command_of (job (tasks l ! i)))")
          (simp_all add: turn_def limit_thread_step_def Let_def coroutine_spawn_eq)
      then show ?thesis by (intro exI[of _ "Resume i"]) simp
    qed
  qed
qed

lemma progress:
  assumes "loop_inv run c ts l" and "0 < c"
  shows "\<exists>extra. gather_tasks (run_loop run extra l) \<noteq> None"
  using assms(1)
proof (induction "work l" arbitrary: l rule: less_induct)
  case less
  show ?case
  proof (cases "gather_tasks l")
    case (Some r)
    then show ?thesis by (intro exI[of _ "[]"]) (simp add: run_loop_Nil)
  next
    case None
    from progress_step[OF less.prems assms(2) None] obtain ev
      where ev: "gather_tasks (turn run ev l) \<noteq> None \<or> work (turn run ev l) < work l"
      by blast
    show ?thesis
    proof (cases "gather_tasks (turn run ev l) \<noteq> None")
      case True
      then show ?thesis by (intro exI[of _ "[ev]"]) (simp add: run_loop_Nil run_loop_Cons)
    next
      case False
      with ev have "work (turn run ev l) < work l" by simp
      from less.hyps[OF this loop_inv_turn[OF less.prems]] obtain extra
        where "gather_tasks (run_loop run extra (turn run ev l)) \<noteq> None"
        by blast
      then show ?thesis by (intro exI[of _ "ev # extra"]) (simp add: run_loop_Cons)
    qed
  qed
qed

subsection \<open>Building the task list\<close>

lemma makedirs_frame:
  "makedirs name exist_ok w = Inr w' \<Longrightarrow>
   launched w' = launched w \<and> printed w' = printed w \<and> cwd w' = cwd w"
  by (auto simp: makedirs_def split: if_splits)

lemma makedirs_exist_ok_world:
  "cwd w2 = cwd w \<Longrightarrow> isl (makedirs name True w2) = isl (makedirs name True w)"
  by (simp add: makedirs_def)

lemma translate_to_build_path_frame:
  "launched (snd (translate_to_build_path f s b w)) = launched w
   \<and> printed (snd (translate_to_build_path f s b w)) = printed w
   \<and> cwd (snd (translate_to_build_path f s b w)) = cwd w"
  by (auto simp: translate_to_build_path_def Let_def split: sum.splits dest: makedirs_frame)

lemma translate_to_build_path_zig_frame:
  "launched (snd (translate_to_build_path_zig f s b w)) = launched w
   \<and> printed (snd (translate_to_build_path_zig f s b w)) = printed w
   \<and> cwd (snd (translate_to_build_path_zig f s b w)) = cwd w"
  by (auto simp: translate_to_build_path_zig_def Let_def split: sum.splits dest: makedirs_frame)

lemma translate_to_build_path_cwd:
  "cwd w2 = cwd w \<Longrightarrow>
   fst (translate_to_build_path f s b w2) = fst (translate_to_build_path f s b w)"
  by (auto simp: translate_to_build_path_def makedirs_def Let_def split: sum.splits)

lemma translate_to_build_path_zig_cwd:
  "cwd w2 = cwd w \<Longrightarrow>
   fst (translate_to_build_path_zig f s b w2) = fst (translate_to_build_path_zig f s b w)"
  by (auto simp: translate_to_build_path_zig_def makedirs_def Let_def split: sum.splits)

lemma frame_preserving_translate: "frame_preserving translate_to_build_path"
  unfolding frame_preserving_def
  using translate_to_build_path_frame translate_to_build_path_cwd by blast

lemma frame_preserving_translate_zig: "frame_preserving translate_to_build_path_zig"
  unfolding frame_preserving_def
  using translate_to_build_path_zig_frame translate_to_build_path_zig_cwd by blast

lemma append_tasks_Inr:
  assumes "frame_preserving tr"
    and "append_tasks fn tr files s b opt acc w = (Inr ts, w')"
  shows "ts = acc @ map (\<lambda>f. \<lparr>task_fun = fn, task_file = f,
                              task_out = projr (fst (tr f s b w)), task_opt = opt\<rparr>) files
         \<and> list_all (\<lambda>f. \<not> isl (fst (tr f s b w))) files
         \<and> launched w' = launched w \<and> printed w' = printed w \<and> cwd w' = cwd w"
  using assms(2)
proof (induction files arbitrary: acc w)
  case Nil
  then show ?case by simp
next
  case (Cons f files)
  obtain r w1 where tr1: "tr f s b w = (r, w1)" by (cases "tr f s b w")
  with Cons.prems obtain out where r: "r = Inr out"
    by (cases r) auto
  from tr1 assms(1) have fr: "launched w1 = launched w" "printed w1 = printed w" "cwd w1 = cwd w"
    unfolding frame_preserving_def by (metis snd_conv)+
  from Cons.prems tr1 r
  have "append_tasks fn tr files s b opt
          (acc @ [\<lparr>task_fun = fn, task_file = f, task_out = out, task_opt = opt\<rparr>]) w1 = (Inr ts, w')"
    by simp
  from Cons.IH[OF this]
  have ih: "ts = (acc @ [\<lparr>task_fun = fn, task_file = f, task_out = out, task_opt = opt\<rparr>])
                 @ map (\<lambda>f. \<lparr>task_fun = fn, task_file = f,
                              task_out = projr (fst (tr f s b w1)), task_opt = opt\<rparr>) files"
    "list_all (\<lambda>f. \<not> isl (fst (tr f s b w1))) files"
    "launched w' = launched w1" "printed w' = printed w1" "cwd w' = cwd w1"
    by simp_all
  have same: "fst (tr g s b w1) = fst (tr g s b w)" for g
    using assms(1) fr(3) unfolding frame_preserving_def by blast
  show ?case
    using ih fr tr1 r by (simp add: same)
qed

lemma append_tasks_ok:
  assumes "frame_preserving tr"
    and "list_all (\<lambda>f. \<not> isl (fst (tr f s b w))) files"
  shows "\<exists>ts w'. append_tasks fn tr files s b opt acc w = (Inr ts, w')"
  using assms(2)
proof (induction files arbitrary: acc w)
  case Nil
  then show ?case by simp
next
  case (Cons f files)
  obtain r w1 where tr1: "tr f s b w = (r, w1)" by (cases "tr f s b w")
  with Cons.prems obtain out where r: "r = Inr out"
    by (cases r) auto
  from tr1 assms(1) have "cwd w1 = cwd w"
    unfolding frame_preserving_def by (metis snd_conv)
  then have same: "fst (tr g s b w1) = fst (tr g s b w)" for g
    using assms(1) unfolding frame_preserving_def by blast
  from Cons.prems have "list_all (\<lambda>f. \<not> isl (fst (tr f s b w1))) files"
    by (simp add: same)
  from Cons.IH[OF this] show ?case
    using tr1 r by simp
qed

lemma append_tasks_Inl:
  assumes "frame_preserving tr"
    and "append_tasks fn tr files s b opt acc w = (Inl e, w')"
  shows "launched w' = launched w \<and> printed w' = printed w \<and> cwd w' = cwd w"
  using assms(2)
proof (induction files arbitrary: acc w)
  case Nil
  then show ?case by simp
next
  case (Cons f files)
  obtain r w1 where tr1: "tr f s b w = (r, w1)" by (cases "tr f s b w")
  from tr1 assms(1) have fr: "launched w1 = launched w" "printed w1 = printed w" "cwd w1 = cwd w"
    unfolding frame_preserving_def by (metis snd_conv)+
  show ?case
  proof (cases r)
    case (Inl e')
    with Cons.prems tr1 fr show ?thesis by simp
  next
    case (Inr out)
    with Cons.prems tr1 have
      "append_tasks fn tr files s b opt
          (acc @ [\<lparr>task_fun = fn, task_file = f, task_out = out, task_opt = opt\<rparr>]) w1 = (Inl e, w')"
      by simp
    from Cons.IH[OF this] fr show ?thesis by simp
  qed
qed

lemmas loop_defs = run_loop_def turn_def limit_thread_step_def main_raises_def cancel_def
  propagate_def gather_tasks_def start_loop_def new_task_def coroutine_spawn_def
  coroutine_resume_def compile_source_c_cpp_spawn_def compile_source_c_cpp_resume_def
  compile_zig_source_spawn_def compile_zig_source_resume_def launch_def print_def
  c_compiler_def cxx_compiler_def zig_compiler_def is_running_def Let_def

lemma make_tasks_Inr:
  assumes "make_tasks s b zig_files c_files cpp_files opt w = (Inr ts, w')"
  shows "ts = map (\<lambda>f. \<lparr>task_fun = CompileZig, task_file = f,
                        task_out = projr (fst (translate_to_build_path_zig f s b w)),
                        task_opt = opt\<rparr>) zig_files
            @ map (\<lambda>f. \<lparr>task_fun = CompileC, task_file = f,
                        task_out = projr (fst (translate_to_build_path f s b w)),
                        task_opt = opt\<rparr>) c_files
            @ map (\<lambda>f. \<lparr>task_fun = CompileCpp, task_file = f,
                        task_out = projr (fst (translate_to_build_path f s b w)),
                        task_opt = opt\<rparr>) cpp_files
         \<and> list_all (\<lambda>f. \<not> isl (fst (translate_to_build_path_zig f s b w))) zig_files
         \<and> list_all (\<lambda>f. \<not> isl (fst (translate_to_build_path f s b w))) (c_files @ cpp_files)
         \<and> launched w' = launched w \<and> printed w' = printed w \<and> cwd w' = cwd w"
proof -
  obtain r1 w1 where a1: "append_tasks CompileZig translate_to_build_path_zig zig_files s b opt [] w
      = (r1, w1)" by (cases "append_tasks CompileZig translate_to_build_path_zig zig_files s b opt [] w")
  with assms obtain ts1 where r1: "r1 = Inr ts1"
    by (cases r1) (auto simp: make_tasks_def)
  obtain r2 w2 where a2: "append_tasks CompileC translate_to_build_path c_files s b opt ts1 w1
      = (r2, w2)" by (cases "append_tasks CompileC translate_to_build_path c_files s b opt ts1 w1")
  with assms a1 r1 obtain ts2 where r2: "r2 = Inr ts2"
    by (cases r2) (auto simp: make_tasks_def)
  from assms a1 r1 a2 r2
  have a3: "append_tasks CompileCpp translate_to_build_path cpp_files s b opt ts2 w2 = (Inr ts, w')"
    by (simp add: make_tasks_def)
  note f1 = append_tasks_Inr[OF frame_preserving_translate_zig a1[unfolded r1]]
  note f2 = append_tasks_Inr[OF frame_preserving_translate a2[unfolded r2]]
  note f3 = append_tasks_Inr[OF frame_preserving_translate a3]
  have c1: "fst (translate_to_build_path f s b w1) = fst (translate_to_build_path f s b w)" for f
    using f1 by (intro translate_to_build_path_cwd) simp
  have c2: "fst (translate_to_build_path f s b w2) = fst (translate_to_build_path f s b w)" for f
    using f1 f2 by (intro translate_to_build_path_cwd) simp
  show ?thesis
    using f1 f2 f3 by (simp add: c1 c2)
qed

lemma make_tasks_Inl:
  assumes "make_tasks s b zig_files c_files cpp_files opt w = (Inl e, w')"
  shows "launched w' = launched w \<and> printed w' = printed w \<and> cwd w' = cwd w"
proof -
  obtain r1 w1 where a1: "append_tasks CompileZig translate_to_build_path_zig zig_files s b opt [] w
      = (r1, w1)" by (cases "append_tasks CompileZig translate_to_build_path_zig zig_files s b opt [] w")
  show ?thesis
  proof (cases r1)
    case (Inl e1)
    with assms a1 have "w' = w1" by (simp add: make_tasks_def)
    with append_tasks_Inl[OF frame_preserving_translate_zig a1[unfolded Inl]] show ?thesis by simp
  next
    case r1: (Inr ts1)
    note f1 = append_tasks_Inr[OF frame_preserving_translate_zig a1[unfolded r1]]
    obtain r2 w2 where a2: "append_tasks CompileC translate_to_build_path c_files s b opt ts1 w1
        = (r2, w2)" by (cases "append_tasks CompileC translate_to_build_path c_files s b opt ts1 w1")
    show ?thesis
    proof (cases r2)
      case (Inl e2)
      with assms a1 r1 a2 have "w' = w2" by (simp add: make_tasks_def)
      with append_tasks_Inl[OF frame_preserving_translate a2[unfolded Inl]] f1 show ?thesis by simp
    next
      case r2: (Inr ts2)
      note f2 = append_tasks_Inr[OF frame_preserving_translate a2[unfolded r2]]
      from assms a1 r1 a2 r2
      have a3: "append_tasks CompileCpp translate_to_build_path cpp_files s b opt ts2 w2 = (Inl e, w')"
        by (simp add: make_tasks_def)
      from append_tasks_Inl[OF frame_preserving_translate a3] f1 f2 show ?thesis by simp
    qed
  qed
qed

lemma make_tasks_ok:
  assumes z: "list_all (\<lambda>f. \<not> isl (fst (translate_to_build_path_zig f s b w))) zig_files"
    and c: "list_all (\<lambda>f. \<not> isl (fst (translate_to_build_path f s b w))) (c_files @ cpp_files)"
  shows "\<exists>ts w'. make_tasks s b zig_files c_files cpp_files opt w = (Inr ts, w')"
proof -
  from append_tasks_ok[OF frame_preserving_translate_zig z] obtain ts1 w1
    where a1: "append_tasks CompileZig translate_to_build_path_zig zig_files s b opt [] w = (Inr ts1, w1)"
    by blast
  note f1 = append_tasks_Inr[OF frame_preserving_translate_zig a1]
  have c1: "fst (translate_to_build_path f s b w1) = fst (translate_to_build_path f s b w)" for f
    using f1 by (intro translate_to_build_path_cwd) simp
  from c have "list_all (\<lambda>f. \<not> isl (fst (translate_to_build_path f s b w1))) c_files"
    by (simp add: c1)
  from append_tasks_ok[OF frame_preserving_translate this] obtain ts2 w2
    where a2: "append_tasks CompileC translate_to_build_path c_files s b opt ts1 w1 = (Inr ts2, w2)"
    by blast
  note f2 = append_tasks_Inr[OF frame_preserving_translate a2]
  have c2: "fst (translate_to_build_path f s b w2) = fst (translate_to_build_path f s b w)" for f
    using f1 f2 by (intro translate_to_build_path_cwd) simp
  from c have "list_all (\<lambda>f. \<not> isl (fst (translate_to_build_path f s b w2))) cpp_files"
    by (simp add: c2)
  from append_tasks_ok[OF frame_preserving_translate this] obtain ts3 w3
    where a3: "append_tasks CompileCpp translate_to_build_path cpp_files s b opt ts2 w2 = (Inr ts3, w3)"
    by blast
  show ?thesis
    using a1 a2 a3 by (simp add: make_tasks_def)
qed

subsection \<open>The order of the artifact list\<close>

lemma compile_sources_paths_of_result:
  "fst (compile_sources run cpus schedule s b zig_files c_files cpp_files opt w) = Some (Inr paths)
   \<longrightarrow> map Inr paths
       = map (\<lambda>f. map_sum id (\<lambda>p. p @ ''.o'') (fst (translate_to_build_path_zig f s b w))) zig_files
         @ map (\<lambda>f. fst (translate_to_build_path f s b w)) c_files
         @ map (\<lambda>f. fst (translate_to_build_path f s b w)) cpp_files"
proof
  assume res: "fst (compile_sources run cpus schedule s b zig_files c_files cpp_files opt w)
               = Some (Inr paths)"
  then obtain c where c: "cpus = Some c"
    by (cases cpus) (auto simp: compile_sources_def)
  obtain r w' where mk: "make_tasks s b zig_files c_files cpp_files opt w = (r, w')"
    by (cases "make_tasks s b zig_files c_files cpp_files opt w")
  with res c obtain ts where r: "r = Inr ts"
    by (cases r) (auto simp: compile_sources_def)
  let ?l = "run_loop run schedule (start_loop c ts w')"
  from res c mk r have g: "gather_tasks ?l = Some (Inr paths)"
    by (simp add: compile_sources_def Let_def)
  have paths: "paths = map artifact ts"
    by (rule gather_tasks_artifacts[OF loop_inv_run_loop g])
  note m = make_tasks_Inr[OF mk[unfolded r]]
  have z: "Inr (projr x @ ''.o'') = map_sum id (\<lambda>p. p @ ''.o'') x" if "\<not> isl x"
    for x :: "error + string"
    using that by (cases x) simp_all
  have i: "Inr (projr x) = x" if "\<not> isl x" for x :: "error + string"
    using that by (cases x) simp_all
  from m have zs: "list_all (\<lambda>f. \<not> isl (fst (translate_to_build_path_zig f s b w))) zig_files"
    and cs: "list_all (\<lambda>f. \<not> isl (fst (translate_to_build_path f s b w))) c_files"
    and xs: "list_all (\<lambda>f. \<not> isl (fst (translate_to_build_path f s b w))) cpp_files"
    by simp_all
  have "map Inr (map artifact ts)
       = map (\<lambda>f. Inr (projr (fst (translate_to_build_path_zig f s b w)) @ ''.o'')) zig_files
         @ map (\<lambda>f. Inr (projr (fst (translate_to_build_path f s b w)))) c_files
         @ map (\<lambda>f. Inr (projr (fst (translate_to_build_path f s b w)))) cpp_files"
    using m by (simp add: artifact_def comp_def)
  also have "\<dots> = map (\<lambda>f. map_sum id (\<lambda>p. p @ ''.o'') (fst (translate_to_build_path_zig f s b w))) zig_files
         @ map (\<lambda>f. fst (translate_to_build_path f s b w)) c_files
         @ map (\<lambda>f. fst (translate_to_build_path f s b w)) cpp_files"
    using zs cs xs by (auto simp: list_all_iff z i)
  finally show "map Inr paths
       = map (\<lambda>f. map_sum id (\<lambda>p. p @ ''.o'') (fst (translate_to_build_path_zig f s b w))) zig_files
         @ map (\<lambda>f. fst (translate_to_build_path f s b w)) c_files
         @ map (\<lambda>f. fst (translate_to_build_path f s b w)) cpp_files"
    using paths by simp
qed

subsection \<open>Permits, invocations and the first failure\<close>

lemma not_running_balanced:
  "task_ok run ts \<Longrightarrow> \<not> is_running ts \<Longrightarrow> releases ts = acquires ts"
  by (auto simp: task_ok_def is_running_def split: phase.splits)

lemma task_ok_spawned: "task_ok run ts \<Longrightarrow> spawns ts = acquires ts"
  by (auto simp: task_ok_def split: phase.splits)

lemma task_ok_counters:
  "task_ok run ts \<Longrightarrow>
   spawns ts \<le> 1 \<and> releases ts \<le> acquires ts \<and> acquires ts \<le> 1
   \<and> (is_running ts \<longleftrightarrow> releases ts < acquires ts)"
  by (auto simp: task_ok_def is_running_def split: phase.splits)

lemma finished_no_running:
  assumes "loop_inv run c jobs l" and "gather_tasks l \<noteq> None"
  shows "list_all (\<lambda>ts. \<not> is_running ts) (tasks l)"
proof (cases "closed l")
  case True
  with assms(1) have "list_all is_settled (tasks l)"
    by (simp add: loop_inv_parts closed_ok_def)
  then show ?thesis
    by (auto simp: list_all_iff is_settled_def is_running_def split: phase.splits)
next
  case False
  with assms(2) obtain paths where "collect (tasks l) = Some paths"
    by (auto simp: gather_tasks_def)
  then have ph: "map phase (tasks l) = map (\<lambda>p. Done (Inr p)) paths"
    by (simp add: collect_Some_iff)
  have "\<not> is_running ts" if "ts \<in> set (tasks l)" for ts
  proof -
    from that have "phase ts \<in> set (map phase (tasks l))" by simp
    then obtain p where "phase ts = Done (Inr p)" unfolding ph by auto
    then show ?thesis by (simp add: is_running_def)
  qed
  then show ?thesis
    by (simp add: list_all_iff)
qed

lemma returned_all_spawned:
  assumes "loop_inv run c jobs l" and "gather_tasks l = Some (Inr paths)"
  shows "list_all (\<lambda>ts. spawns ts = 1) (tasks l)"
proof -
  from assms(1) have ok: "list_all (task_ok run) (tasks l)" and co: "closed_ok l"
    by (simp_all add: loop_inv_parts)
  from assms(2) co have "collect (tasks l) = Some paths"
    by (auto simp: gather_tasks_def closed_ok_def split: if_splits)
  then have ph: "map phase (tasks l) = map (\<lambda>p. Done (Inr p)) paths"
    by (simp add: collect_Some_iff)
  have "spawns ts = 1" if "ts \<in> set (tasks l)" for ts
  proof -
    from that have "phase ts \<in> set (map phase (tasks l))" by simp
    then obtain p where "phase ts = Done (Inr p)" unfolding ph by auto
    moreover from ok that have "task_ok run ts" by (simp add: list_all_iff)
    ultimately show ?thesis by (simp add: task_ok_def)
  qed
  then show ?thesis by (simp add: list_all_iff)
qed

lemma sum_list_all_one:
  "list_all (\<lambda>x. f x = (1::nat)) xs \<Longrightarrow> sum_list (map f xs) = length xs"
  by (induction xs) auto

lemma launched_count:
  "length (launched (env (run_loop run schedule (start_loop c jobs w))))
   = length (launched w) + sum_list (map spawns (tasks (run_loop run schedule (start_loop c jobs w))))"
  using trace_ok_run_loop[of w run schedule c jobs]
  unfolding trace_ok_def by auto

text \<open>
  Claim C3, amended. After any schedule: every task has called
  \<open>create_subprocess_exec\<close> at most once, has acquired the semaphore at most once and
  has released it at most as often as it acquired it, and holds a permit exactly while
  it is running; the running tasks are at most \<open>c\<close>, and together with the free
  permits exactly \<open>c\<close>; the runner has been handed one command per call of
  \<open>create_subprocess_exec\<close>. Once \<open>asyncio.run\<close> has returned or raised, every task
  has released what it acquired. When it has returned the artifact list, every task
  has started its compiler exactly once, so that \<open>compile_sources\<close> has launched one
  process per source file. A task has called \<open>create_subprocess_exec\<close> as often as it
  has acquired the semaphore: one that is cancelled while it waits for the semaphore
  never starts its compiler.
\<close>

theorem scheduler_gate_and_invocations:
  "(let l = run_loop run schedule (start_loop c jobs w) in
      list_all (\<lambda>ts. spawns ts \<le> 1 \<and> releases ts \<le> acquires ts \<and> acquires ts \<le> 1
                     \<and> (is_running ts \<longleftrightarrow> releases ts < acquires ts)) (tasks l)
      \<and> length (filter is_running (tasks l)) \<le> c
      \<and> length (filter is_running (tasks l)) + sem_value l = c
      \<and> length (launched (env l)) = length (launched w) + sum_list (map spawns (tasks l))
      \<and> (gather_tasks l \<noteq> None \<longrightarrow> list_all (\<lambda>ts. releases ts = acquires ts) (tasks l))
      \<and> (\<forall>paths. gather_tasks l = Some (Inr paths)
            \<longrightarrow> list_all (\<lambda>ts. spawns ts = 1) (tasks l)
               \<and> length (launched (env l)) = length (launched w) + length jobs))
   \<and> (\<forall>paths. fst (compile_sources run cpus schedule s b zig_files c_files cpp_files opt w)
                = Some (Inr paths)
        \<longrightarrow> length (launched (snd (compile_sources run cpus schedule s b zig_files c_files
                                      cpp_files opt w)))
            = length (launched w) + length zig_files + length c_files + length cpp_files)
   \<and> list_all (\<lambda>ts. spawns ts = acquires ts)
       (tasks (run_loop run schedule (start_loop c jobs w)))"
proof -
  define l where "l = run_loop run schedule (start_loop c jobs w)"
  have inv: "loop_inv run c jobs l"
    unfolding l_def by (rule loop_inv_run_loop)
  then have ok: "list_all (task_ok run) (tasks l)"
    and perm: "length (filter is_running (tasks l)) + sem_value l = c"
    and jobs: "map job (tasks l) = jobs"
    by (simp_all add: loop_inv_parts)
  have p1: "list_all (\<lambda>ts. spawns ts \<le> 1 \<and> releases ts \<le> acquires ts \<and> acquires ts \<le> 1
                     \<and> (is_running ts \<longleftrightarrow> releases ts < acquires ts)) (tasks l)"
    using ok task_ok_counters[of run] by (auto simp: list_all_iff)
  have p2: "length (filter is_running (tasks l)) \<le> c"
    using perm by simp
  have p4: "length (launched (env l)) = length (launched w) + sum_list (map spawns (tasks l))"
    unfolding l_def by (rule launched_count)
  have p5: "list_all (\<lambda>ts. releases ts = acquires ts) (tasks l)" if "gather_tasks l \<noteq> None"
    using finished_no_running[OF inv that] ok not_running_balanced[of run]
    by (auto simp: list_all_iff)
  have p6: "list_all (\<lambda>ts. spawns ts = 1) (tasks l)
            \<and> length (launched (env l)) = length (launched w) + length jobs"
    if "gather_tasks l = Some (Inr paths)" for paths
  proof -
    have a: "list_all (\<lambda>ts. spawns ts = 1) (tasks l)"
      by (rule returned_all_spawned[OF inv that])
    have "length (tasks l) = length jobs"
      using jobs by (metis length_map)
    with a p4 show ?thesis by (simp add: sum_list_all_one)
  qed
  have first: "(let l = run_loop run schedule (start_loop c jobs w) in
      list_all (\<lambda>ts. spawns ts \<le> 1 \<and> releases ts \<le> acquires ts \<and> acquires ts \<le> 1
                     \<and> (is_running ts \<longleftrightarrow> releases ts < acquires ts)) (tasks l)
      \<and> length (filter is_running (tasks l)) \<le> c
      \<and> length (filter is_running (tasks l)) + sem_value l = c
      \<and> length (launched (env l)) = length (launched w) + sum_list (map spawns (tasks l))
      \<and> (gather_tasks l \<noteq> None \<longrightarrow> list_all (\<lambda>ts. releases ts = acquires ts) (tasks l))
      \<and> (\<forall>paths. gather_tasks l = Some (Inr paths)
            \<longrightarrow> list_all (\<lambda>ts. spawns ts = 1) (tasks l)
               \<and> length (launched (env l)) = length (launched w) + length jobs))"
    unfolding Let_def l_def[symmetric] using p1 p2 perm p4 p5 p6 by blast
  have second: "length (launched (snd (compile_sources run cpus schedule s b zig_files c_files
                                      cpp_files opt w)))
            = length (launched w) + length zig_files + length c_files + length cpp_files"
    if res: "fst (compile_sources run cpus schedule s b zig_files c_files cpp_files opt w)
                = Some (Inr paths)" for paths
  proof -
    from res obtain k where k: "cpus = Some k"
      by (cases cpus) (auto simp: compile_sources_def)
    obtain r w' where mk: "make_tasks s b zig_files c_files cpp_files opt w = (r, w')"
      by (cases "make_tasks s b zig_files c_files cpp_files opt w")
    with res k obtain ts where r: "r = Inr ts"
      by (cases r) (auto simp: compile_sources_def)
    let ?l = "run_loop run schedule (start_loop k ts w')"
    from res k mk r have g: "gather_tasks ?l = Some (Inr paths)"
      by (simp add: compile_sources_def Let_def)
    note m = make_tasks_Inr[OF mk[unfolded r]]
    have all: "list_all (\<lambda>ts. spawns ts = 1) (tasks ?l)"
      by (rule returned_all_spawned[OF loop_inv_run_loop g])
    have "map job (tasks ?l) = ts"
      using loop_inv_run_loop[of run k ts schedule w'] by (simp add: loop_inv_parts)
    then have len: "length (tasks ?l) = length ts"
      by (metis length_map)
    have "length ts = length zig_files + length c_files + length cpp_files"
      using m by simp
    with all len launched_count[of run schedule k ts w'] m
    have "length (launched (env ?l))
          = length (launched w) + length zig_files + length c_files + length cpp_files"
      by (simp add: sum_list_all_one)
    with k mk r show ?thesis
      by (simp add: compile_sources_def Let_def)
  qed
  have third: "list_all (\<lambda>ts. spawns ts = acquires ts)
       (tasks (run_loop run schedule (start_loop c jobs w)))"
    using ok task_ok_spawned[of run] unfolding l_def by (auto simp: list_all_iff)
  from first second third show ?thesis by blast
qed

text \<open>
  Claim C2, amended. After any schedule: when some task has failed, \<open>gather\<close> has
  propagated an exception and the result is never a list of artifacts; when
  \<open>asyncio.run\<close> has raised, the exception is that of a task that failed, and every
  task is done or cancelled; the propagated exception is the first one and no later
  turn replaces it. With at least one permit, every schedule can be continued until
  \<open>asyncio.run\<close> returns or raises. A task has called \<open>create_subprocess_exec\<close> as
  often as it has acquired the semaphore, so one cancelled while it waits was never
  attempted; and once a task has failed, the next turn of the main coroutine makes
  \<open>asyncio.run\<close> raise.
\<close>

theorem gather_raises_first_failure:
  "(let l = run_loop run schedule (start_loop c jobs w) in
      (list_ex is_failed (tasks l)
         \<longrightarrow> raised l \<noteq> None \<and> (\<forall>paths. gather_tasks l \<noteq> Some (Inr paths)))
      \<and> (\<forall>e. gather_tasks l = Some (Inl e)
            \<longrightarrow> list_ex (\<lambda>ts. phase ts = Done (Inl e)) (tasks l)
               \<and> list_all is_settled (tasks l))
      \<and> (\<forall>e ev. raised l = Some e \<longrightarrow> raised (turn run ev l) = Some e))
   \<and> (0 < c \<longrightarrow> (\<exists>extra. gather_tasks (run_loop run (schedule @ extra) (start_loop c jobs w))
                          \<noteq> None))
   \<and> list_all (\<lambda>ts. spawns ts = acquires ts)
       (tasks (run_loop run schedule (start_loop c jobs w)))
   \<and> (list_ex is_failed (tasks (run_loop run schedule (start_loop c jobs w)))
      \<longrightarrow> (\<exists>e. gather_tasks (run_loop run (schedule @ [MainRaises]) (start_loop c jobs w))
                = Some (Inl e)))"
proof -
  define l where "l = run_loop run schedule (start_loop c jobs w)"
  have inv: "loop_inv run c jobs l"
    unfolding l_def by (rule loop_inv_run_loop)
  then have ro: "raised_ok l" and co: "closed_ok l"
    and ok: "list_all (task_ok run) (tasks l)"
    by (simp_all add: loop_inv_parts)
  have a: "raised l \<noteq> None \<and> (\<forall>paths. gather_tasks l \<noteq> Some (Inr paths))"
    if f: "list_ex is_failed (tasks l)"
  proof -
    from f ro have r: "raised l \<noteq> None"
      by (auto simp: raised_ok_def split: option.splits)
    from f obtain ts where ts: "ts \<in> set (tasks l)" "is_failed ts"
      by (auto simp: list_ex_iff)
    then have "\<forall>p. phase ts \<noteq> Done (Inr p)"
      by (auto simp: is_failed_def split: phase.splits sum.splits)
    with ts(1) have "collect (tasks l) = None"
      unfolding collect_None_iff list_ex_iff by blast
    with r show ?thesis
      by (auto simp: gather_tasks_def)
  qed
  have b: "list_ex (\<lambda>ts. phase ts = Done (Inl e)) (tasks l) \<and> list_all is_settled (tasks l)"
    if g: "gather_tasks l = Some (Inl e)" for e
  proof -
    from g have cl: "closed l" and r: "raised l = Some e"
      by (auto simp: gather_tasks_def split: if_splits)
    with ro co show ?thesis
      by (simp add: raised_ok_def closed_ok_def)
  qed
  have c: "raised (turn run ev l) = Some e" if "raised l = Some e" for e ev
  proof (cases ev)
    case (Resume i)
    with that show ?thesis
      by (cases rule: limit_thread_step_cases[of run i l]) (simp_all add: turn_def propagate_def)
  next
    case MainRaises
    with that show ?thesis
      by (cases rule: main_raises_cases[of l]) (simp_all add: turn_def)
  qed
  have d: "\<exists>extra. gather_tasks (run_loop run (schedule @ extra) (start_loop c jobs w)) \<noteq> None"
    if "0 < c"
    using progress[OF inv that] unfolding l_def run_loop_append .
  have e: "list_all (\<lambda>ts. spawns ts = acquires ts) (tasks l)"
    using ok task_ok_spawned[of run] by (auto simp: list_all_iff)
  have f: "\<exists>e. gather_tasks (run_loop run (schedule @ [MainRaises]) (start_loop c jobs w))
               = Some (Inl e)"
    if "list_ex is_failed (tasks l)"
  proof -
    from a[OF that] obtain e where r: "raised l = Some e" by auto
    have "gather_tasks (main_raises l) = Some (Inl e)"
      using r by (cases "closed l") (simp_all add: main_raises_def gather_tasks_def)
    moreover have "run_loop run (schedule @ [MainRaises]) (start_loop c jobs w) = main_raises l"
      unfolding l_def by (simp add: run_loop_append run_loop_Cons run_loop_Nil turn_def)
    ultimately show ?thesis by auto
  qed
  show ?thesis
    unfolding Let_def l_def[symmetric] using a b c d e f by blast
qed

subsection \<open>Sample runs\<close>

lemma make_tasks_eval:
  assumes "list_all (\<lambda>f. \<not> isl (fst (translate_to_build_path_zig f s b w))) zig_files"
    and "list_all (\<lambda>f. \<not> isl (fst (translate_to_build_path f s b w))) (c_files @ cpp_files)"
  shows "\<exists>w'. make_tasks s b zig_files c_files cpp_files opt w
           = (Inr (map (\<lambda>f. \<lparr>task_fun = CompileZig, task_file = f,
                        task_out = projr (fst (translate_to_build_path_zig f s b w)),
                        task_opt = opt\<rparr>) zig_files
            @ map (\<lambda>f. \<lparr>task_fun = CompileC, task_file = f,
                        task_out = projr (fst (translate_to_build_path f s b w)),
                        task_opt = opt\<rparr>) c_files
            @ map (\<lambda>f. \<lparr>task_fun = CompileCpp, task_file = f,
                        task_out = projr (fst (translate_to_build_path f s b w)),
                        task_opt = opt\<rparr>) cpp_files), w')
         \<and> launched w' = launched w \<and> printed w' = printed w \<and> cwd w' = cwd w"
proof -
  from make_tasks_ok[OF assms] obtain ts w'
    where mk: "make_tasks s b zig_files c_files cpp_files opt w = (Inr ts, w')"
    by blast
  from make_tasks_Inr[OF mk] mk show ?thesis by blast
qed

lemma compile_sources_eval:
  "make_tasks s b zig_files c_files cpp_files opt w = (Inr ts, w') \<Longrightarrow>
   compile_sources run (Some k) schedule s b zig_files c_files cpp_files opt w
   = (gather_tasks (run_loop run schedule (start_loop k ts w')),
      env (run_loop run schedule (start_loop k ts w')))"
  by (simp add: compile_sources_def Let_def)

lemma sample_translations:
  "fst (translate_to_build_path_zig ''src/main.zig'' ''src'' ''build'' w0) = Inr ''build/main''"
  "fst (translate_to_build_path ''src/a.c'' ''src'' ''build'' w0) = Inr ''build/a.o''"
  "fst (translate_to_build_path ''src/b.c'' ''src'' ''build'' w0) = Inr ''build/b.o''"
  "fst (translate_to_build_path ''src/c.c'' ''src'' ''build'' w0) = Inr ''build/c.o''"
  "fst (translate_to_build_path ''src/d.c'' ''src'' ''build'' w0) = Inr ''build/d.o''"
  "fst (translate_to_build_path ''src/e.c'' ''src'' ''build'' w0) = Inr ''build/e.o''"
  "fst (translate_to_build_path ''src/c.cpp'' ''src'' ''build'' w0) = Inr ''build/c.o''"
  by (simp_all add: translate_to_build_path_def translate_to_build_path_zig_def path_defs w0_def)

lemma w0_fields: "launched w0 = []" "printed w0 = []" "cwd w0 = ''/home/dev/game''" "dirs w0 = {}"
  by (simp_all add: w0_def)

lemma sample_make:
  "\<exists>w'. make_tasks ''src'' ''build'' [''src/main.zig''] [''src/b.c''] [''src/c.cpp''] [] w0
          = (Inr sample_tasks, w')
        \<and> launched w' = [] \<and> printed w' = []"
  using make_tasks_eval[of "''src''" "''build''" w0 "[''src/main.zig'']" "[''src/b.c'']"
      "[''src/c.cpp'']" "[]"]
  by (auto simp: sample_translations sample_tasks_def w0_fields)

lemma five_make:
  "\<exists>w'. make_tasks ''src'' ''build'' []
            [''src/a.c'', ''src/b.c'', ''src/c.c'', ''src/d.c'', ''src/e.c''] [] [] w0
          = (Inr five_tasks, w')
        \<and> launched w' = [] \<and> printed w' = []"
  using make_tasks_eval[of "''src''" "''build''" w0 "[]"
      "[''src/a.c'', ''src/b.c'', ''src/c.c'', ''src/d.c'', ''src/e.c'']" "[]" "[]"]
  by (auto simp: sample_translations five_tasks_def c_task_def w0_fields)

lemma sample_loop:
  "gather_tasks (run_loop (run_fake []) out_of_order (start_loop 2 sample_tasks w))
     = Some (Inr [''build/main.o'', ''build/b.o'', ''build/c.o''])"
  by (simp add: loop_defs sample_tasks_def run_fake_def out_of_order_def)

lemma sample_compile:
  "fst (compile_sources (run_fake []) (Some 2) out_of_order ''src'' ''build''
          [''src/main.zig''] [''src/b.c''] [''src/c.cpp''] [] w0)
   = Some (Inr [''build/main.o'', ''build/b.o'', ''build/c.o''])"
proof -
  from sample_make obtain w' where
    "make_tasks ''src'' ''build'' [''src/main.zig''] [''src/b.c''] [''src/c.cpp''] [] w0
       = (Inr sample_tasks, w')"
    by blast
  then show ?thesis
    by (simp add: compile_sources_eval sample_loop)
qed

lemma fail_fast_loop:
  "gather_tasks (run_loop (run_fake [''src/a.c'']) fail_fast (start_loop 1 five_tasks w))
     = Some (Inl (RuntimeError ''Compilation failed for src/a.c''))"
  "map phase (tasks (run_loop (run_fake [''src/a.c'']) fail_fast (start_loop 1 five_tasks w)))
     = [Done (Inl (RuntimeError ''Compilation failed for src/a.c'')),
        Cancelled, Cancelled, Cancelled, Cancelled]"
  "map spawns (tasks (run_loop (run_fake [''src/a.c'']) fail_fast (start_loop 1 five_tasks w)))
     = [1, 1, 0, 0, 0]"
  "launched (env (run_loop (run_fake [''src/a.c'']) fail_fast (start_loop 1 five_tasks w)))
     = launched w @ [[''zig'', ''cc'', ''src/a.c'', ''-o'', ''build/a.o''],
                     [''zig'', ''cc'', ''src/b.c'', ''-o'', ''build/b.o'']]"
  by (simp_all add: loop_defs five_tasks_def c_task_def run_fake_def fail_fast_def)

text \<open>
  Claim C2 does not hold as stated. Five C files, one permit, and the compiler fails on
  \<open>src/a.c\<close>. The first task starts and fails; the released permit lets the second
  task start its compiler; then the main coroutine raises. The second task is cancelled
  while its compiler runs, and the last three are cancelled without ever having been
  attempted.
\<close>

theorem gather_cancels_unfinished_siblings:
  "fst (make_tasks ''src'' ''build'' []
          [''src/a.c'', ''src/b.c'', ''src/c.c'', ''src/d.c'', ''src/e.c''] [] [] w0)
     = Inr five_tasks
   \<and> gather_tasks (run_loop (run_fake [''src/a.c'']) fail_fast (start_loop 1 five_tasks w0))
     = Some (Inl (RuntimeError ''Compilation failed for src/a.c''))
   \<and> map phase (tasks (run_loop (run_fake [''src/a.c'']) fail_fast (start_loop 1 five_tasks w0)))
     = [Done (Inl (RuntimeError ''Compilation failed for src/a.c'')),
        Cancelled, Cancelled, Cancelled, Cancelled]
   \<and> map spawns (tasks (run_loop (run_fake [''src/a.c'']) fail_fast (start_loop 1 five_tasks w0)))
     = [1, 1, 0, 0, 0]"
proof -
  from five_make obtain w' where
    "make_tasks ''src'' ''build'' []
            [''src/a.c'', ''src/b.c'', ''src/c.c'', ''src/d.c'', ''src/e.c''] [] [] w0
          = (Inr five_tasks, w')"
    by blast
  then show ?thesis
    using fail_fast_loop[of w0] by simp
qed

text \<open>
  The five C files under one permit, with the compiler failing on the first.
\<close>

theorem gather_raises_first_failure_witness:
  "list_ex is_failed (tasks (run_loop (run_fake [''src/a.c'']) fail_fast (start_loop 1 five_tasks w0)))
   \<and> raised (run_loop (run_fake [''src/a.c'']) fail_fast (start_loop 1 five_tasks w0)) \<noteq> None
   \<and> gather_tasks (run_loop (run_fake [''src/a.c'']) fail_fast (start_loop 1 five_tasks w0))
     = Some (Inl (RuntimeError ''Compilation failed for src/a.c''))
   \<and> list_all is_settled (tasks (run_loop (run_fake [''src/a.c'']) fail_fast (start_loop 1 five_tasks w0)))
   \<and> (\<exists>extra. gather_tasks (run_loop (run_fake [''src/a.c'']) (fail_fast @ extra)
                   (start_loop 1 five_tasks w0)) \<noteq> None)
   \<and> (\<exists>e. gather_tasks (run_loop (run_fake [''src/a.c'']) (fail_fast @ [MainRaises])
                   (start_loop 1 five_tasks w0)) = Some (Inl e))"
proof -
  have f: "list_ex is_failed
     (tasks (run_loop (run_fake [''src/a.c'']) fail_fast (start_loop 1 five_tasks w0)))"
    using fail_fast_loop(2)[of w0]
    by (auto simp: list_ex_iff is_failed_def map_eq_Cons_conv)
  show ?thesis
    using f fail_fast_loop(1)[of w0]
      gather_raises_first_failure [of "run_fake [''src/a.c'']" fail_fast 1 five_tasks w0]
    by (simp add: Let_def)
qed

text \<open>
  Claim C3 does not hold as stated. For the same five files and schedule,
  \<open>compile_sources\<close> raises after the runner has been invoked for two files only.
\<close>

theorem compile_sources_skips_cancelled_files:
  "fst (compile_sources (run_fake [''src/a.c'']) (Some 1) fail_fast ''src'' ''build'' []
          [''src/a.c'', ''src/b.c'', ''src/c.c'', ''src/d.c'', ''src/e.c''] [] [] w0)
     = Some (Inl (RuntimeError ''Compilation failed for src/a.c''))
   \<and> launched (snd (compile_sources (run_fake [''src/a.c'']) (Some 1) fail_fast ''src'' ''build'' []
          [''src/a.c'', ''src/b.c'', ''src/c.c'', ''src/d.c'', ''src/e.c''] [] [] w0))
     = [[''zig'', ''cc'', ''src/a.c'', ''-o'', ''build/a.o''],
        [''zig'', ''cc'', ''src/b.c'', ''-o'', ''build/b.o'']]"
proof -
  from five_make obtain w' where
    "make_tasks ''src'' ''build'' []
            [''src/a.c'', ''src/b.c'', ''src/c.c'', ''src/d.c'', ''src/e.c''] [] [] w0
          = (Inr five_tasks, w')" "launched w' = []"
    by blast
  then show ?thesis
    using fail_fast_loop[of w'] by (simp add: compile_sources_eval)
qed

lemma sample_loop_counters:
  "map spawns (tasks (run_loop (run_fake []) out_of_order (start_loop 2 sample_tasks w))) = [1, 1, 1]"
  "map acquires (tasks (run_loop (run_fake []) out_of_order (start_loop 2 sample_tasks w))) = [1, 1, 1]"
  "map releases (tasks (run_loop (run_fake []) out_of_order (start_loop 2 sample_tasks w))) = [1, 1, 1]"
  by (simp_all add: loop_defs sample_tasks_def run_fake_def out_of_order_def)

text \<open>
  The three sample tasks under two permits: every task has started its compiler once
  and released its permit.
\<close>

theorem scheduler_gate_and_invocations_witness:
  "gather_tasks (run_loop (run_fake []) out_of_order (start_loop 2 sample_tasks w0))
     = Some (Inr [''build/main.o'', ''build/b.o'', ''build/c.o''])
   \<and> list_all (\<lambda>ts. releases ts = acquires ts)
        (tasks (run_loop (run_fake []) out_of_order (start_loop 2 sample_tasks w0)))
   \<and> list_all (\<lambda>ts. spawns ts = 1)
        (tasks (run_loop (run_fake []) out_of_order (start_loop 2 sample_tasks w0)))
   \<and> length (launched (env (run_loop (run_fake []) out_of_order (start_loop 2 sample_tasks w0))))
     = length (launched w0) + length sample_tasks
   \<and> fst (compile_sources (run_fake []) (Some 2) out_of_order ''src'' ''build''
          [''src/main.zig''] [''src/b.c''] [''src/c.cpp''] [] w0)
     = Some (Inr [''build/main.o'', ''build/b.o'', ''build/c.o''])
   \<and> length (launched (snd (compile_sources (run_fake []) (Some 2) out_of_order ''src'' ''build''
          [''src/main.zig''] [''src/b.c''] [''src/c.cpp''] [] w0)))
     = length (launched w0) + 3"
  using scheduler_gate_and_invocations [of "run_fake []" out_of_order 2 sample_tasks w0
      "Some 2" "''src''" "''build''" "[''src/main.zig'']" "[''src/b.c'']" "[''src/c.cpp'']" "[]"]
    sample_loop[of w0] sample_compile
  by (simp add: Let_def)

subsection \<open>The script as a whole\<close>

lemma ensure_dir_frame:
  "ensure_dir d w = Inr w1 \<Longrightarrow>
   launched w1 = launched w \<and> printed w1 = printed w \<and> cwd w1 = cwd w"
  by (auto simp: ensure_dir_def rmtree_def Let_def dest!: makedirs_frame split: if_splits)

lemma init_sdl2_absent:
  assumes "run [''pkg-config'', ''--exists'', ''sdl2''] = Some res" and "returncode res \<noteq> 0"
  shows "init_sdl2 run w
         = (Inl (RuntimeError ''SDL2 not found via pkg-config. Please install SDL2 development files.''),
            w\<lparr>launched := launched w @ [[''pkg-config'', ''--exists'', ''sdl2'']]\<rparr>)"
  using assms
  by (simp add: init_sdl2_def pkg_config_exists_def subprocess_run_check_def launch_def)

text \<open>
  Claim C8. When \<open>pkg-config --exists sdl2\<close> exits with a non-zero status, the script
  ends with an exception under every schedule; it has started no \<open>zig\<close> process and
  printed no line, so no compile task has begun. When the build directory could be
  recreated and a platform module was selected, the exception is the \<open>RuntimeError\<close>
  of \<open>init_sdl2\<close> and the existence query is the only process started.
\<close>

theorem build_stops_without_sdl2:
  assumes "run [''pkg-config'', ''--exists'', ''sdl2''] = Some res" and "returncode res \<noteq> 0"
  shows "(\<exists>e. fst (build run linux_flags macos_flags cfg schedule w) = Some (Inl e))
         \<and> \<not> list_ex (\<lambda>command. take 1 command = [''zig''])
               (drop (length (launched w))
                  (launched (snd (build run linux_flags macos_flags cfg schedule w))))
         \<and> printed (snd (build run linux_flags macos_flags cfg schedule w)) = printed w
         \<and> (\<forall>w1 flags. ensure_dir (arg_build_dir cfg) w = Inr w1
                \<and> platform_flags linux_flags macos_flags cfg = Inr flags
              \<longrightarrow> build run linux_flags macos_flags cfg schedule w
                  = (Some (Inl (RuntimeError
                       ''SDL2 not found via pkg-config. Please install SDL2 development files.'')),
                     w1\<lparr>launched := launched w @ [[''pkg-config'', ''--exists'', ''sdl2'']]\<rparr>))"
proof (cases "ensure_dir (arg_build_dir cfg) w")
  case (Inl e)
  then show ?thesis by (simp add: build_def Let_def)
next
  case (Inr w1)
  note fr = ensure_dir_frame[OF Inr]
  show ?thesis
  proof (cases "platform_flags linux_flags macos_flags cfg")
    case (Inl e)
    with Inr fr show ?thesis by (simp add: build_def Let_def)
  next
    case flags: (Inr flags)
    have "build run linux_flags macos_flags cfg schedule w
          = (Some (Inl (RuntimeError
               ''SDL2 not found via pkg-config. Please install SDL2 development files.'')),
             w1\<lparr>launched := launched w @ [[''pkg-config'', ''--exists'', ''sdl2'']]\<rparr>)"
      using Inr flags fr by (simp add: build_def Let_def init_sdl2_absent[where run=run and res=res, OF assms])
    with Inr flags fr show ?thesis by simp
  qed
qed


lemma init_sdl2_frame:
  assumes "init_sdl2 run w = (r, w')"
  shows "printed w' = printed w \<and> cwd w' = cwd w
         \<and> (launched w' = launched w @ [pkg_exists_command]
             \<or> launched w' = launched w @ [pkg_exists_command, pkg_cflags_command])
         \<and> (\<not> isl r \<longrightarrow> launched w' = launched w @ [pkg_exists_command, pkg_cflags_command])"
  using assms
  by (auto simp: init_sdl2_def pkg_config_exists_def get_pkg_config_cflags_def
      subprocess_run_check_def launch_def pkg_exists_command_def pkg_cflags_command_def
      split: option.splits if_splits error.splits sum.splits prod.splits)

lemma command_of_kind:
  "is_compile_command (command_of t) \<and> \<not> is_link_command (command_of t)"
  by (cases "task_fun t")
    (simp_all add: command_of_def is_compile_command_def is_link_command_def zig_compiler_def
      c_compiler_def cxx_compiler_def zig_compile_executable_def)

lemma compile_fails_command_of:
  "compile_fails run (command_of t)
   \<longleftrightarrow> (case run (command_of t) of None \<Rightarrow> True | Some res \<Rightarrow> \<not> passes t res)"
  by (cases "task_fun t")
    (simp_all add: compile_fails_def command_of_def is_compile_command_def passes_def
      zig_compiler_def c_compiler_def cxx_compiler_def split: option.splits)

lemma pkg_commands_kind:
  "\<not> is_compile_command pkg_exists_command" "\<not> is_link_command pkg_exists_command"
  "\<not> is_compile_command pkg_cflags_command" "\<not> is_link_command pkg_cflags_command"
  "\<not> compile_fails run pkg_exists_command" "\<not> compile_fails run pkg_cflags_command"
  by (simp_all add: compile_fails_def is_compile_command_def is_link_command_def
      pkg_exists_command_def pkg_cflags_command_def zig_compiler_def c_compiler_def
      cxx_compiler_def zig_compile_executable_def)

lemma link_executable_launched:
  "launched (snd (link_executable run objs out opt w))
   = launched w @ [zig_compile_executable @ [''-femit-bin='' @ out] @ objs @ opt]"
  by (simp add: link_executable_def link_executable_async_def launch_def print_def Let_def
      split: option.splits)

lemma link_command_kind:
  "is_link_command (zig_compile_executable @ rest)
   \<and> \<not> is_compile_command (zig_compile_executable @ rest)
   \<and> \<not> compile_fails run (zig_compile_executable @ rest)"
  by (simp add: compile_fails_def is_compile_command_def is_link_command_def
      zig_compiler_def c_compiler_def cxx_compiler_def zig_compile_executable_def)

lemma build_cases [consumes 0, case_names early compiled]:
  obtains
    (early) e w' where
      "\<And>schedule. build run linux_flags macos_flags cfg schedule w = (Some (Inl e), w')"
      "launched w' = launched w \<or> launched w' = launched w @ [pkg_exists_command]
       \<or> launched w' = launched w @ [pkg_exists_command, pkg_cflags_command]"
  | (compiled) k ts w3 opt where
      "os_cpu_count cfg = Some k"
      "launched w3 = launched w @ [pkg_exists_command, pkg_cflags_command]"
      "length ts = 1 + length (glob_c_files cfg) + length (glob_cpp_files cfg)"
      "\<And>schedule. build run linux_flags macos_flags cfg schedule w
         = link_phase run cfg opt (run_loop run schedule (start_loop k ts w3))"
proof (cases "ensure_dir (arg_build_dir cfg) w")
  case (Inl e)
  then show ?thesis by (intro early[of e w]) (simp_all add: build_def Let_def)
next
  case w1: (Inr w1)
  note fr1 = ensure_dir_frame[OF w1]
  show ?thesis
  proof (cases "platform_flags linux_flags macos_flags cfg")
    case (Inl e)
    with w1 fr1 show ?thesis by (intro early[of e w1]) (simp_all add: build_def Let_def)
  next
    case flags: (Inr flags)
    obtain r2 w2 where sdl: "init_sdl2 run w1 = (r2, w2)" by (cases "init_sdl2 run w1")
    note fr2 = init_sdl2_frame[OF sdl]
    show ?thesis
    proof (cases r2)
      case (Inl e)
      with w1 flags sdl fr1 fr2 show ?thesis
        by (intro early[of e w2]) (auto simp: build_def Let_def)
    next
      case cflags: (Inr cflags)
      with fr1 fr2 have l2: "launched w2 = launched w @ [pkg_exists_command, pkg_cflags_command]"
        by simp
      show ?thesis
      proof (cases "os_cpu_count cfg")
        case None
        with w1 flags sdl cflags l2 show ?thesis
          by (intro early[of TypeError w2]) (simp_all add: build_def Let_def compile_sources_def)
      next
        case k: (Some k)
        obtain r3 w3 where mk: "make_tasks (arg_source_dir cfg) (arg_build_dir cfg)
            [path_join (arg_source_dir cfg) ''main.zig''] (glob_c_files cfg) (glob_cpp_files cfg)
            (flags @ cflags) w2 = (r3, w3)"
          by (cases "make_tasks (arg_source_dir cfg) (arg_build_dir cfg)
            [path_join (arg_source_dir cfg) ''main.zig''] (glob_c_files cfg) (glob_cpp_files cfg)
            (flags @ cflags) w2")
        show ?thesis
        proof (cases r3)
          case (Inl e)
          with make_tasks_Inl[OF mk[unfolded Inl]] w1 flags sdl cflags l2 k mk show ?thesis
            by (intro early[of e w3]) (simp_all add: build_def Let_def compile_sources_def)
        next
          case ts: (Inr ts)
          note m = make_tasks_Inr[OF mk[unfolded ts]]
          show ?thesis
          proof (rule compiled[of k w3 ts "flags @ cflags"])
            show "os_cpu_count cfg = Some k" by (rule k)
            show "launched w3 = launched w @ [pkg_exists_command, pkg_cflags_command]"
              using m l2 by simp
            show "length ts = 1 + length (glob_c_files cfg) + length (glob_cpp_files cfg)"
              using m by simp
            show "build run linux_flags macos_flags cfg schedule w
                  = link_phase run cfg (flags @ cflags) (run_loop run schedule (start_loop k ts w3))"
              for schedule
              using w1 flags sdl cflags k mk ts
              by (simp add: build_def Let_def compile_sources_def link_phase_def
                  split: option.splits sum.splits prod.splits)
          qed
        qed
      qed
    qed
  qed
qed


lemma trace_commands:
  assumes inv: "loop_inv run k ts l" and tr: "trace_ok w3 l"
  obtains X where "launched (env l) = launched w3 @ X"
    "list_all is_compile_command X" "\<not> list_ex is_link_command X"
    "\<And>objs. gather_tasks l = Some (Inr objs)
       \<Longrightarrow> length X = length ts \<and> \<not> list_ex (compile_fails run) X"
proof -
  from tr obtain X where X: "launched (env l) = launched w3 @ X"
      "length X = sum_list (map spawns (tasks l))"
      "\<forall>command\<in>set X. \<exists>i<length (tasks l).
          command = command_of (job (tasks l ! i)) \<and> spawns (tasks l ! i) = 1"
    unfolding trace_ok_def by blast
  from inv have ok: "list_all (task_ok run) (tasks l)" and jobs: "map job (tasks l) = ts"
    and co: "closed_ok l"
    by (simp_all add: loop_inv_parts)
  have a: "list_all is_compile_command X"
    using X(3) command_of_kind by (auto simp: list_all_iff)
  have b: "\<not> list_ex is_link_command X"
    using X(3) command_of_kind by (auto simp: list_ex_iff)
  have c: "length X = length ts \<and> \<not> list_ex (compile_fails run) X"
    if g: "gather_tasks l = Some (Inr objs)" for objs
  proof -
    have all: "list_all (\<lambda>ts. spawns ts = 1) (tasks l)"
      by (rule returned_all_spawned[OF inv g])
    have "length (tasks l) = length ts"
      using jobs by (metis length_map)
    with all X(2) have len: "length X = length ts"
      by (simp add: sum_list_all_one)
    from g co have "collect (tasks l) = Some objs"
      by (auto simp: gather_tasks_def closed_ok_def split: if_splits)
    then have ph: "map phase (tasks l) = map (\<lambda>p. Done (Inr p)) objs"
      by (simp add: collect_Some_iff)
    have "\<not> compile_fails run command" if "command \<in> set X" for command
    proof -
      from that X(3) obtain i where i: "i < length (tasks l)"
        "command = command_of (job (tasks l ! i))"
        by blast
      from i(1) have "phase (tasks l ! i) \<in> set (map phase (tasks l))" by simp
      then obtain p where "phase (tasks l ! i) = Done (Inr p)" unfolding ph by auto
      moreover from ok i(1) have "task_ok run (tasks l ! i)" by (simp add: list_all_length)
      ultimately show ?thesis
        unfolding i(2) compile_fails_command_of
        by (auto simp: task_ok_def split: option.splits)
    qed
    with len show ?thesis by (auto simp: list_ex_iff)
  qed
  from X(1) a b c show ?thesis by (rule that)
qed

lemma turn_launched:
  "\<exists>Y. launched (env (turn run ev l)) = launched (env l) @ Y"
proof (cases ev)
  case (Resume i)
  then show ?thesis
    by (cases rule: limit_thread_step_cases[of run i l])
      (simp_all add: turn_def coroutine_spawn_eq coroutine_resume_launched)
next
  case MainRaises
  then show ?thesis
    by (cases rule: main_raises_cases[of l]) (simp_all add: turn_def)
qed

lemma run_loop_launched:
  "\<exists>Y. launched (env (run_loop run extra l)) = launched (env l) @ Y"
proof (induction extra arbitrary: l)
  case Nil
  then show ?case by (simp add: run_loop_Nil)
next
  case (Cons ev extra)
  from turn_launched[of run ev l] obtain Y1
    where "launched (env (turn run ev l)) = launched (env l) @ Y1" by blast
  moreover from Cons[of "turn run ev l"] obtain Y2
    where "launched (env (run_loop run extra (turn run ev l))) = launched (env (turn run ev l)) @ Y2"
    by blast
  ultimately show ?case by (simp add: run_loop_Cons)
qed

lemma link_phase_launched:
  "launched (snd (link_phase run cfg opt l))
   = (case gather_tasks l of
        Some (Inr objs) \<Rightarrow>
          launched (env l)
          @ [zig_compile_executable
             @ [''-femit-bin='' @ snd (adapt_to_target (is_target_windows cfg) objs
                                         (path_join (arg_build_dir cfg) (arg_output cfg)))]
             @ fst (adapt_to_target (is_target_windows cfg) objs
                      (path_join (arg_build_dir cfg) (arg_output cfg)))
             @ opt]
      | _ \<Rightarrow> launched (env l))"
proof (cases "gather_tasks l")
  case None
  then show ?thesis by (simp add: link_phase_def)
next
  case (Some r)
  show ?thesis
  proof (cases r)
    case (Inl e)
    with Some show ?thesis by (simp add: link_phase_def)
  next
    case (Inr objs)
    obtain lo out' where ad: "adapt_to_target (is_target_windows cfg) objs
        (path_join (arg_build_dir cfg) (arg_output cfg)) = (lo, out')"
      by (cases "adapt_to_target (is_target_windows cfg) objs
        (path_join (arg_build_dir cfg) (arg_output cfg))")
    obtain r4 w4 where lk: "link_executable run lo out' opt (env l) = (r4, w4)"
      by (cases "link_executable run lo out' opt (env l)")
    from link_executable_launched[of run lo out' opt "env l"] lk
    have "launched w4 = launched (env l) @ [zig_compile_executable @ [''-femit-bin='' @ out'] @ lo @ opt]"
      by simp
    with Some Inr ad lk show ?thesis by (simp add: link_phase_def)
  qed
qed

lemma link_phase_result:
  "fst (link_phase run cfg opt l)
   = (case gather_tasks l of
        None \<Rightarrow> None
      | Some (Inl e) \<Rightarrow> Some (Inl e)
      | Some (Inr objs) \<Rightarrow>
          Some (fst (link_executable run
                  (fst (adapt_to_target (is_target_windows cfg) objs
                          (path_join (arg_build_dir cfg) (arg_output cfg))))
                  (snd (adapt_to_target (is_target_windows cfg) objs
                          (path_join (arg_build_dir cfg) (arg_output cfg))))
                  opt (env l))))"
  by (auto simp: link_phase_def split: option.splits sum.splits prod.splits)


lemma link_phase_shape:
  fixes cfg :: config and opt :: "string list"
  assumes k: "loop_inv run k ts l" and tr: "trace_ok w3 l"
    and w3: "launched w3 = launched w @ [pkg_exists_command, pkg_cflags_command]"
  defines "new \<equiv> drop (length (launched w)) (launched (snd (link_phase run cfg opt l)))"
    and "r \<equiv> fst (link_phase run cfg opt l)"
  shows "(list_ex (compile_fails run) new
            \<longrightarrow> \<not> list_ex is_link_command new \<and> (\<forall>exe. r \<noteq> Some (Inr exe)))
         \<and> (list_ex is_link_command new
            \<longrightarrow> length (filter is_compile_command new) = length ts
               \<and> is_link_command (last new) \<and> length (filter is_link_command new) = 1)
         \<and> ((\<exists>exe. r = Some (Inr exe)) \<longrightarrow> list_ex is_link_command new)
         \<and> (gather_tasks l \<noteq> None \<longrightarrow> r \<noteq> None)
         \<and> (\<exists>X. launched (env l) = launched w3 @ X
                \<and> (list_ex (compile_fails run) new \<longleftrightarrow> list_ex (compile_fails run) X))"
proof -
  from trace_commands[OF k tr] obtain X where X: "launched (env l) = launched w3 @ X"
    "list_all is_compile_command X" "\<not> list_ex is_link_command X"
    "\<And>objs. gather_tasks l = Some (Inr objs)
       \<Longrightarrow> length X = length ts \<and> \<not> list_ex (compile_fails run) X"
    by blast
  have fX: "filter is_compile_command X = X" "filter is_link_command X = []"
    using X(2,3) by (auto simp: list_all_iff list_ex_iff filter_id_conv filter_empty_conv)
  show ?thesis
  proof (cases "\<exists>objs. gather_tasks l = Some (Inr objs)")
    case True
    then obtain objs where g: "gather_tasks l = Some (Inr objs)" by blast
    define link where "link = zig_compile_executable
             @ [''-femit-bin='' @ snd (adapt_to_target (is_target_windows cfg) objs
                                         (path_join (arg_build_dir cfg) (arg_output cfg)))]
             @ fst (adapt_to_target (is_target_windows cfg) objs
                      (path_join (arg_build_dir cfg) (arg_output cfg)))
             @ opt"
    have lk: "is_link_command link" "\<not> is_compile_command link" "\<not> compile_fails run link"
      unfolding link_def using link_command_kind by blast+
    have new: "new = [pkg_exists_command, pkg_cflags_command] @ X @ [link]"
      unfolding new_def link_phase_launched g X(1) w3 link_def by simp
    from X(4)[OF g] have len: "length X = length ts" and nf: "\<not> list_ex (compile_fails run) X"
      by simp_all
    have r: "r \<noteq> None" "\<exists>res. r = Some res"
      unfolding r_def link_phase_result g by simp_all
    have "\<not> list_ex (compile_fails run) new"
      unfolding new using nf lk pkg_commands_kind by simp
    moreover have "length (filter is_compile_command new) = length ts"
      unfolding new using fX lk pkg_commands_kind len by simp
    moreover have "is_link_command (last new)"
      unfolding new using lk by simp
    moreover have "length (filter is_link_command new) = 1"
      unfolding new using fX lk pkg_commands_kind by simp
    moreover have "list_ex is_link_command new"
      unfolding new using lk by simp
    ultimately show ?thesis
      using r nf X(1) by blast
  next
    case False
    have new: "new = [pkg_exists_command, pkg_cflags_command] @ X"
      unfolding new_def link_phase_launched X(1) w3 using False
      by (auto split: option.splits sum.splits)
    have r: "\<forall>exe. r \<noteq> Some (Inr exe)" "gather_tasks l \<noteq> None \<longrightarrow> r \<noteq> None"
      unfolding r_def link_phase_result using False
      by (auto split: option.splits sum.splits)
    have "\<not> list_ex is_link_command new"
      unfolding new using X(3) pkg_commands_kind by simp
    moreover have "list_ex (compile_fails run) new \<longleftrightarrow> list_ex (compile_fails run) X"
      unfolding new using pkg_commands_kind by simp
    ultimately show ?thesis
      using r X(1) by blast
  qed
qed

text \<open>
  Claim C4. Let \<open>new\<close> be the commands the script has handed to the runner. If the
  coroutine of one of the compile commands in \<open>new\<close> raises, no link command is in
  \<open>new\<close> and the result is not an executable. If a link command is in \<open>new\<close>, it
  is the last command and the only link command, and \<open>new\<close> has one compile command
  for \<open>main.zig\<close> and for each C and C++ file. An executable as result means that the
  link command was launched. Unless the CPU count is 0, every schedule can be continued
  until the script ends, and it then ends with an exception if a compile command in
  \<open>new\<close> fails.
\<close>

theorem build_links_only_after_all_compiled:
  "(let r = fst (build run linux_flags macos_flags cfg schedule w);
        new = drop (length (launched w))
                (launched (snd (build run linux_flags macos_flags cfg schedule w)))
    in (list_ex (compile_fails run) new
          \<longrightarrow> \<not> list_ex is_link_command new \<and> (\<forall>exe. r \<noteq> Some (Inr exe)))
       \<and> (list_ex is_link_command new
          \<longrightarrow> length (filter is_compile_command new)
               = 1 + length (glob_c_files cfg) + length (glob_cpp_files cfg)
             \<and> is_link_command (last new) \<and> length (filter is_link_command new) = 1)
       \<and> ((\<exists>exe. r = Some (Inr exe)) \<longrightarrow> list_ex is_link_command new)
       \<and> (os_cpu_count cfg \<noteq> Some 0
          \<longrightarrow> (\<exists>extra.
                 fst (build run linux_flags macos_flags cfg (schedule @ extra) w) \<noteq> None
                 \<and> (list_ex (compile_fails run) new
                    \<longrightarrow> (\<exists>e. fst (build run linux_flags macos_flags cfg (schedule @ extra) w)
                              = Some (Inl e))))))"
proof (cases rule: build_cases[of run linux_flags macos_flags cfg w])
  case (early e w')
  have new: "drop (length (launched w)) (launched w') = []
             \<or> drop (length (launched w)) (launched w') = [pkg_exists_command]
             \<or> drop (length (launched w)) (launched w') = [pkg_exists_command, pkg_cflags_command]"
    using early(2) by auto
  have a: "\<not> list_ex (compile_fails run) (drop (length (launched w)) (launched w'))"
    using new pkg_commands_kind by auto
  have b: "\<not> list_ex is_link_command (drop (length (launched w)) (launched w'))"
    using new pkg_commands_kind by auto
  have c: "\<exists>extra. fst (build run linux_flags macos_flags cfg (schedule @ extra) w) \<noteq> None"
    by (simp add: early(1))
  show ?thesis
    unfolding Let_def using a b c by (simp add: early(1))
next
  case (compiled k ts w3 opt)
  define l where "l = run_loop run schedule (start_loop k ts w3)"
  have inv: "loop_inv run k ts l"
    unfolding l_def by (rule loop_inv_run_loop)
  have tr: "trace_ok w3 l"
    unfolding l_def by (rule trace_ok_run_loop)
  have b: "build run linux_flags macos_flags cfg schedule w = link_phase run cfg opt l"
    unfolding l_def by (rule compiled(4))
  note shape = link_phase_shape[OF inv tr compiled(2), of cfg opt]
  define new where "new = drop (length (launched w)) (launched (snd (link_phase run cfg opt l)))"
  from shape obtain X where X: "launched (env l) = launched w3 @ X"
    "list_ex (compile_fails run) new \<longleftrightarrow> list_ex (compile_fails run) X"
    unfolding new_def by blast
  have last: "\<exists>extra. fst (build run linux_flags macos_flags cfg (schedule @ extra) w) \<noteq> None
                 \<and> (list_ex (compile_fails run) new
                    \<longrightarrow> (\<exists>e. fst (build run linux_flags macos_flags cfg (schedule @ extra) w)
                              = Some (Inl e)))"
    if "os_cpu_count cfg \<noteq> Some 0"
  proof -
    from that compiled(1) have "0 < k" by simp
    from progress[OF inv this] obtain extra
      where fin: "gather_tasks (run_loop run extra l) \<noteq> None" by blast
    define l' where "l' = run_loop run (schedule @ extra) (start_loop k ts w3)"
    have l': "l' = run_loop run extra l"
      unfolding l'_def l_def by (rule run_loop_append)
    have inv': "loop_inv run k ts l'"
      unfolding l'_def by (rule loop_inv_run_loop)
    have tr': "trace_ok w3 l'"
      unfolding l'_def by (rule trace_ok_run_loop)
    have b': "build run linux_flags macos_flags cfg (schedule @ extra) w = link_phase run cfg opt l'"
      unfolding l'_def by (rule compiled(4))
    note shape' = link_phase_shape[OF inv' tr' compiled(2), of cfg opt]
    define new' where
      "new' = drop (length (launched w)) (launched (snd (link_phase run cfg opt l')))"
    from shape' obtain X' where X': "launched (env l') = launched w3 @ X'"
      "list_ex (compile_fails run) new' \<longleftrightarrow> list_ex (compile_fails run) X'"
      unfolding new'_def by blast
    from run_loop_launched[of run extra l] obtain Y
      where "launched (env l') = launched (env l) @ Y"
      unfolding l' by blast
    with X(1) X'(1) have "X' = X @ Y" by simp
    then have mono: "list_ex (compile_fails run) X \<Longrightarrow> list_ex (compile_fails run) X'"
      by simp
    have nn: "fst (link_phase run cfg opt l') \<noteq> None"
      using shape' fin unfolding l' by blast
    have "\<exists>e. fst (link_phase run cfg opt l') = Some (Inl e)"
      if "list_ex (compile_fails run) new"
    proof -
      from that X(2) mono X'(2) have "list_ex (compile_fails run) new'" by blast
      with shape' have "\<forall>exe. fst (link_phase run cfg opt l') \<noteq> Some (Inr exe)"
        unfolding new'_def by blast
      with nn show ?thesis
        by (cases "fst (link_phase run cfg opt l')") (auto intro: sum.exhaust)
    qed
    with nn show ?thesis
      by (intro exI[of _ extra]) (auto simp: b')
  qed
  show ?thesis
    unfolding Let_def b using shape last compiled(3)
    unfolding new_def by simp
qed


lemma build_eval:
  assumes "ensure_dir (arg_build_dir cfg) w = Inr w1"
    and "platform_flags linux_flags macos_flags cfg = Inr flags"
    and "init_sdl2 run w1 = (Inr cflags, w2)"
    and "os_cpu_count cfg = Some k"
    and "make_tasks (arg_source_dir cfg) (arg_build_dir cfg)
           [path_join (arg_source_dir cfg) ''main.zig''] (glob_c_files cfg) (glob_cpp_files cfg)
           (flags @ cflags) w2 = (Inr ts, w3)"
  shows "build run linux_flags macos_flags cfg schedule w
         = link_phase run cfg (flags @ cflags) (run_loop run schedule (start_loop k ts w3))"
  using assms
  by (simp add: build_def Let_def compile_sources_def link_phase_def
      split: option.splits sum.splits prod.splits)

lemma sample_ensure_dir: "ensure_dir ''build'' w0 = Inr (w0\<lparr>dirs := {''build''}\<rparr>)"
  by (simp add: ensure_dir_def makedirs_def ancestors_def w0_def)

lemma sample_platform: "platform_flags no_flags no_flags sample_cfg = Inr []"
  by (simp add: platform_flags_def sample_cfg_def no_flags_def startswith_def)

lemma sample_init_sdl2:
  "init_sdl2 (run_fake []) w
   = (Inr [], w\<lparr>launched := launched w @ [pkg_exists_command, pkg_cflags_command]\<rparr>)"
  "init_sdl2 (run_fake [''src/b.c'']) w
   = (Inr [], w\<lparr>launched := launched w @ [pkg_exists_command, pkg_cflags_command]\<rparr>)"
  by (simp_all add: init_sdl2_def pkg_config_exists_def get_pkg_config_cflags_def
      subprocess_run_check_def launch_def run_fake_def split_def pkg_exists_command_def
      pkg_cflags_command_def)

lemma sample_build_tasks:
  assumes "cwd w = cwd w0"
  shows "\<exists>w'. make_tasks ''src'' ''build'' [''src/main.zig''] [''src/b.c''] [''src/c.cpp''] [] w
               = (Inr sample_tasks, w')
             \<and> launched w' = launched w \<and> printed w' = printed w"
  using make_tasks_eval[of "''src''" "''build''" w "[''src/main.zig'']" "[''src/b.c'']"
      "[''src/c.cpp'']" "[]"]
    translate_to_build_path_cwd[OF assms] translate_to_build_path_zig_cwd[OF assms]
  by (auto simp: sample_translations sample_tasks_def)


lemma sample_loop_trace:
  "launched (env (run_loop (run_fake []) out_of_order (start_loop 2 sample_tasks w)))
   = launched w @ [[''zig'', ''build-obj'', ''src/main.zig'', ''-femit-bin=build/main''],
                   [''zig'', ''cc'', ''src/b.c'', ''-o'', ''build/b.o''],
                   [''zig'', ''c++'', ''src/c.cpp'', ''-o'', ''build/c.o'']]"
  by (simp add: loop_defs sample_tasks_def run_fake_def out_of_order_def)

lemma fail_second_loop:
  "gather_tasks (run_loop (run_fake [''src/b.c'']) fail_second (start_loop 2 sample_tasks w))
   = Some (Inl (RuntimeError ''Compilation failed for src/b.c''))"
  "launched (env (run_loop (run_fake [''src/b.c'']) fail_second (start_loop 2 sample_tasks w)))
   = launched w @ [[''zig'', ''build-obj'', ''src/main.zig'', ''-femit-bin=build/main''],
                   [''zig'', ''cc'', ''src/b.c'', ''-o'', ''build/b.o'']]"
  by (simp_all add: loop_defs sample_tasks_def run_fake_def fail_second_def)

lemma sample_cfg_fields:
  "arg_build_dir sample_cfg = ''build''" "arg_source_dir sample_cfg = ''src''"
  "arg_output sample_cfg = ''app''" "os_cpu_count sample_cfg = Some 2"
  "glob_c_files sample_cfg = [''src/b.c'']" "glob_cpp_files sample_cfg = [''src/c.cpp'']"
  "is_target_windows sample_cfg = False"
  by (simp_all add: sample_cfg_def is_target_windows_def startswith_def)

lemma sample_build_phase:
  assumes "run = run_fake [] \<or> run = run_fake [''src/b.c'']"
  shows "\<exists>w3. launched w3 = [pkg_exists_command, pkg_cflags_command]
          \<and> (\<forall>schedule. build run no_flags no_flags sample_cfg schedule w0
                = link_phase run sample_cfg [] (run_loop run schedule (start_loop 2 sample_tasks w3)))"
proof -
  define w1 where "w1 = w0\<lparr>dirs := {''build''}\<rparr>"
  define w2 where "w2 = w1\<lparr>launched := launched w1 @ [pkg_exists_command, pkg_cflags_command]\<rparr>"
  have c2: "cwd w2 = cwd w0" by (simp add: w2_def w1_def)
  from sample_build_tasks[OF c2] obtain w3 where
    mk: "make_tasks ''src'' ''build'' [''src/main.zig''] [''src/b.c''] [''src/c.cpp''] [] w2
           = (Inr sample_tasks, w3)"
    and l3: "launched w3 = launched w2"
    by blast
  have ed: "ensure_dir ''build'' w0 = Inr w1"
    by (simp add: sample_ensure_dir w1_def)
  have sdl: "init_sdl2 run w1 = (Inr [], w2)"
    using assms by (auto simp: sample_init_sdl2 w2_def)
  have "build run no_flags no_flags sample_cfg schedule w0
        = link_phase run sample_cfg ([] @ []) (run_loop run schedule (start_loop 2 sample_tasks w3))"
    for schedule
    by (rule build_eval[where ?w1.0 = w1 and ?w2.0 = w2])
      (simp_all add: sample_cfg_fields ed sample_platform sdl mk
        path_join_def startswith_def endswith_def)
  moreover have "launched w3 = [pkg_exists_command, pkg_cflags_command]"
    using l3 by (simp add: w2_def w1_def w0_def)
  ultimately show ?thesis by auto
qed

lemma sample_build_ok:
  "fst (build (run_fake []) no_flags no_flags sample_cfg out_of_order w0) = Some (Inr ''build/app'')"
  "launched (snd (build (run_fake []) no_flags no_flags sample_cfg out_of_order w0))
   = [pkg_exists_command, pkg_cflags_command,
      [''zig'', ''build-obj'', ''src/main.zig'', ''-femit-bin=build/main''],
      [''zig'', ''cc'', ''src/b.c'', ''-o'', ''build/b.o''],
      [''zig'', ''c++'', ''src/c.cpp'', ''-o'', ''build/c.o''],
      [''zig'', ''build-exe'', ''-femit-bin=build/app'', ''build/main.o'', ''build/b.o'',
       ''build/c.o'']]"
proof -
  from sample_build_phase[of "run_fake []"] obtain w3 where
    w3: "launched w3 = [pkg_exists_command, pkg_cflags_command]"
    and b: "build (run_fake []) no_flags no_flags sample_cfg out_of_order w0
          = link_phase (run_fake []) sample_cfg []
              (run_loop (run_fake []) out_of_order (start_loop 2 sample_tasks w3))"
    by auto
  have ad: "adapt_to_target False objs out = (objs, out)" for objs out
    by (simp add: adapt_to_target_def)
  have pj: "path_join ''build'' ''app'' = ''build/app''"
    by (simp add: path_join_def startswith_def endswith_def)
  show "fst (build (run_fake []) no_flags no_flags sample_cfg out_of_order w0)
        = Some (Inr ''build/app'')"
    unfolding b link_phase_result sample_loop
    by (simp add: sample_cfg_fields ad pj link_executable_def link_executable_async_def
        launch_def print_def run_fake_def Let_def)
  show "launched (snd (build (run_fake []) no_flags no_flags sample_cfg out_of_order w0))
   = [pkg_exists_command, pkg_cflags_command,
      [''zig'', ''build-obj'', ''src/main.zig'', ''-femit-bin=build/main''],
      [''zig'', ''cc'', ''src/b.c'', ''-o'', ''build/b.o''],
      [''zig'', ''c++'', ''src/c.cpp'', ''-o'', ''build/c.o''],
      [''zig'', ''build-exe'', ''-femit-bin=build/app'', ''build/main.o'', ''build/b.o'',
       ''build/c.o'']]"
    unfolding b link_phase_launched sample_loop sample_loop_trace w3
    by (simp add: sample_cfg_fields ad pj zig_compile_executable_def)
qed

lemma sample_build_fail:
  "fst (build (run_fake [''src/b.c'']) no_flags no_flags sample_cfg fail_second w0)
   = Some (Inl (RuntimeError ''Compilation failed for src/b.c''))"
  "launched (snd (build (run_fake [''src/b.c'']) no_flags no_flags sample_cfg fail_second w0))
   = [pkg_exists_command, pkg_cflags_command,
      [''zig'', ''build-obj'', ''src/main.zig'', ''-femit-bin=build/main''],
      [''zig'', ''cc'', ''src/b.c'', ''-o'', ''build/b.o'']]"
proof -
  from sample_build_phase[of "run_fake [''src/b.c'']"] obtain w3 where
    w3: "launched w3 = [pkg_exists_command, pkg_cflags_command]"
    and b: "build (run_fake [''src/b.c'']) no_flags no_flags sample_cfg fail_second w0
          = link_phase (run_fake [''src/b.c'']) sample_cfg []
              (run_loop (run_fake [''src/b.c'']) fail_second (start_loop 2 sample_tasks w3))"
    by auto
  show "fst (build (run_fake [''src/b.c'']) no_flags no_flags sample_cfg fail_second w0)
   = Some (Inl (RuntimeError ''Compilation failed for src/b.c''))"
    unfolding b link_phase_result fail_second_loop by simp
  show "launched (snd (build (run_fake [''src/b.c'']) no_flags no_flags sample_cfg fail_second w0))
   = [pkg_exists_command, pkg_cflags_command,
      [''zig'', ''build-obj'', ''src/main.zig'', ''-femit-bin=build/main''],
      [''zig'', ''cc'', ''src/b.c'', ''-o'', ''build/b.o'']]"
    unfolding b link_phase_launched fail_second_loop w3 by simp
qed


text \<open>
  The sample configuration built twice: with a runner under which everything
  succeeds, and with one under which the compiler fails on \<open>src/b.c\<close>.
\<close>

theorem build_links_only_after_all_compiled_witness:
  "fst (build (run_fake []) no_flags no_flags sample_cfg out_of_order w0) = Some (Inr ''build/app'')
   \<and> list_ex is_link_command
       (launched (snd (build (run_fake []) no_flags no_flags sample_cfg out_of_order w0)))
   \<and> length (filter is_compile_command
       (launched (snd (build (run_fake []) no_flags no_flags sample_cfg out_of_order w0)))) = 3
   \<and> is_link_command
       (last (launched (snd (build (run_fake []) no_flags no_flags sample_cfg out_of_order w0))))
   \<and> list_ex (compile_fails (run_fake [''src/b.c'']))
       (launched (snd (build (run_fake [''src/b.c'']) no_flags no_flags sample_cfg fail_second w0)))
   \<and> \<not> list_ex is_link_command
       (launched (snd (build (run_fake [''src/b.c'']) no_flags no_flags sample_cfg fail_second w0)))
   \<and> (\<forall>exe. fst (build (run_fake [''src/b.c'']) no_flags no_flags sample_cfg fail_second w0)
              \<noteq> Some (Inr exe))"
proof -
  have h1: "list_ex is_link_command
       (launched (snd (build (run_fake []) no_flags no_flags sample_cfg out_of_order w0)))"
    unfolding sample_build_ok
    by (simp add: is_link_command_def zig_compile_executable_def)
  have h2: "list_ex (compile_fails (run_fake [''src/b.c'']))
       (launched (snd (build (run_fake [''src/b.c'']) no_flags no_flags sample_cfg fail_second w0)))"
    unfolding sample_build_fail
    by (simp add: compile_fails_def is_compile_command_def run_fake_def zig_compiler_def
        c_compiler_def cxx_compiler_def)
  show ?thesis
    using h1 h2 sample_build_ok(1)
      build_links_only_after_all_compiled [of "run_fake []" no_flags no_flags sample_cfg
        out_of_order w0]
      build_links_only_after_all_compiled [of "run_fake [''src/b.c'']" no_flags no_flags
        sample_cfg fail_second w0]
    by (simp add: Let_def w0_fields sample_cfg_fields)
qed

text \<open>
  The sample configuration with a runner under which \<open>pkg-config\<close> fails for
  \<open>sdl2\<close>.
\<close>

theorem build_stops_without_sdl2_witness:
  "run_fake [''sdl2''] [''pkg-config'', ''--exists'', ''sdl2'']
     = Some \<lparr>early_returncode = Some 1, returncode = 1, stdout = [], stderr = ''err''\<rparr>
   \<and> build (run_fake [''sdl2'']) no_flags no_flags sample_cfg out_of_order w0
     = (Some (Inl (RuntimeError
          ''SDL2 not found via pkg-config. Please install SDL2 development files.'')),
        w0\<lparr>dirs := {''build''}, launched := [[''pkg-config'', ''--exists'', ''sdl2'']]\<rparr>)"
proof -
  have h1: "run_fake [''sdl2''] [''pkg-config'', ''--exists'', ''sdl2'']
     = Some \<lparr>early_returncode = Some 1, returncode = 1, stdout = [], stderr = ''err''\<rparr>"
    by (simp add: run_fake_def)
  have h2: "returncode \<lparr>early_returncode = Some 1, returncode = 1, stdout = [], stderr = ''err''\<rparr>
            \<noteq> 0"
    by simp
  show ?thesis
    using h1 build_stops_without_sdl2 [where run = "run_fake [''sdl2'']"
        and res = "\<lparr>early_returncode = Some 1, returncode = 1, stdout = [], stderr = ''err''\<rparr>"
        and linux_flags = no_flags and macos_flags = no_flags and cfg = sample_cfg
        and schedule = out_of_order and w = w0, OF h1 h2]
      sample_ensure_dir sample_platform
    by (simp add: sample_cfg_fields w0_fields)
qed

subsection \<open>The artifact list is returned, and in submission order\<close>

lemma limit_thread_step_fail_ok:
  assumes f: "list_all (fail_ok run) (tasks l)" and ok: "list_all (task_ok run) (tasks l)"
  shows "list_all (fail_ok run) (tasks (limit_thread_step run i l))"
proof (cases rule: limit_thread_step_cases[of run i l])
  case idle
  with f show ?thesis by simp
next
  case (nostart ts)
  then have "compile_fails run (command_of (job ts))"
    by (simp add: compile_fails_command_of)
  with nostart f show ?thesis
    by (auto intro!: list_all_update simp: fail_ok_def)
next
  case (start ts res)
  with f show ?thesis
    by (auto intro!: list_all_update simp: fail_ok_def)
next
  case (finish ts command res)
  with ok have "task_ok run ts" by (simp add: list_all_length)
  with finish have c: "command = command_of (job ts)" "run (command_of (job ts)) = Some res"
    by (auto simp: task_ok_def)
  have "fail_ok run (ts\<lparr>phase := Done (fst (coroutine_resume (job ts) command res (env l))),
                         releases := releases ts + 1\<rparr>)"
    using c by (simp add: fail_ok_def coroutine_resume_result compile_fails_command_of)
  with finish f show ?thesis
    by (auto intro!: list_all_update)
qed

lemma fail_ok_cancel: "fail_ok run ts \<Longrightarrow> fail_ok run (cancel ts)"
  by (auto simp: cancel_def fail_ok_def split: phase.splits)

lemma main_raises_fail_ok:
  "list_all (fail_ok run) (tasks l) \<Longrightarrow> list_all (fail_ok run) (tasks (main_raises l))"
  by (cases rule: main_raises_cases[of l]) (simp_all add: list_all_iff fail_ok_cancel)

lemma fail_ok_run_loop:
  "list_all (fail_ok run) (tasks (run_loop run schedule (start_loop c ts w)))"
proof -
  have "loop_inv run c ts (run_loop run schedule (start_loop c ts w))
        \<and> list_all (fail_ok run) (tasks (run_loop run schedule (start_loop c ts w)))"
  proof (rule run_loop_invariant)
    show "loop_inv run c ts (start_loop c ts w)
          \<and> list_all (fail_ok run) (tasks (start_loop c ts w))"
    proof
      show "loop_inv run c ts (start_loop c ts w)" by (rule loop_inv_start)
      show "list_all (fail_ok run) (tasks (start_loop c ts w))"
        by (simp add: start_loop_def new_task_def list_all_iff fail_ok_def)
    qed
  next
    fix l ev
    assume a: "loop_inv run c ts l \<and> list_all (fail_ok run) (tasks l)"
    then have ok: "list_all (task_ok run) (tasks l)" by (simp add: loop_inv_parts)
    have "list_all (fail_ok run) (tasks (turn run ev l))"
      using a ok
      by (cases ev) (simp_all add: turn_def limit_thread_step_fail_ok main_raises_fail_ok)
    with a show "loop_inv run c ts (turn run ev l)
                 \<and> list_all (fail_ok run) (tasks (turn run ev l))"
      by (simp add: loop_inv_turn)
  qed
  then show ?thesis by simp
qed

lemma all_pass_never_raises:
  fixes schedule :: "event list" and c :: nat and w :: world
  assumes pass: "list_all (\<lambda>t. \<not> compile_fails run (command_of t)) ts"
  defines "l \<equiv> run_loop run schedule (start_loop c ts w)"
  shows "raised l = None \<and> \<not> closed l"
proof -
  have inv: "loop_inv run c ts l"
    unfolding l_def by (rule loop_inv_run_loop)
  then have jobs: "map job (tasks l) = ts" and ro: "raised_ok l" and co: "closed_ok l"
    by (simp_all add: loop_inv_parts)
  have fo: "list_all (fail_ok run) (tasks l)"
    unfolding l_def by (rule fail_ok_run_loop)
  have nofail: "\<not> is_failed x" if x: "x \<in> set (tasks l)" for x
  proof
    assume "is_failed x"
    then obtain e where "phase x = Done (Inl e)"
      by (auto simp: is_failed_def split: phase.splits sum.splits)
    with fo x have "compile_fails run (command_of (job x))"
      by (auto simp: list_all_iff fail_ok_def)
    moreover from x jobs have "job x \<in> set ts" by force
    ultimately show False
      using pass by (auto simp: list_all_iff)
  qed
  have r: "raised l = None"
  proof (cases "raised l")
    case None
    then show ?thesis .
  next
    case (Some e)
    with ro obtain x where "x \<in> set (tasks l)" "phase x = Done (Inl e)"
      by (auto simp: raised_ok_def list_ex_iff)
    with nofail[of x] show ?thesis by (simp add: is_failed_def)
  qed
  with co show ?thesis by (auto simp: closed_ok_def)
qed

lemma returned_commands:
  fixes schedule :: "event list" and c :: nat and w :: world
  assumes g: "gather_tasks (run_loop run schedule (start_loop c ts w)) = Some (Inr paths)"
  defines "l \<equiv> run_loop run schedule (start_loop c ts w)"
  shows "list_all (\<lambda>t. command_of t \<in> set (drop (length (launched w)) (launched (env l)))
                      \<and> \<not> compile_fails run (command_of t)) ts"
proof -
  have inv: "loop_inv run c ts l"
    unfolding l_def by (rule loop_inv_run_loop)
  then have jobs: "map job (tasks l) = ts" and ok: "list_all (task_ok run) (tasks l)"
    and co: "closed_ok l"
    by (simp_all add: loop_inv_parts)
  have g': "gather_tasks l = Some (Inr paths)" using g by (simp add: l_def)
  have all: "list_all (\<lambda>x. spawns x = 1) (tasks l)"
    by (rule returned_all_spawned[OF inv g'])
  from g' co have "collect (tasks l) = Some paths"
    by (auto simp: gather_tasks_def closed_ok_def split: if_splits)
  then have ph: "map phase (tasks l) = map (\<lambda>p. Done (Inr p)) paths"
    by (simp add: collect_Some_iff)
  have "trace_ok w l" unfolding l_def by (rule trace_ok_run_loop)
  then obtain X where X: "launched (env l) = launched w @ X"
    "\<forall>i<length (tasks l). spawns (tasks l ! i) = 1
       \<longrightarrow> command_of (job (tasks l ! i)) \<in> set X"
    unfolding trace_ok_def by blast
  have dr: "drop (length (launched w)) (launched (env l)) = X"
    using X(1) by simp
  have len: "length (tasks l) = length ts" using jobs by (metis length_map)
  have "command_of (ts ! i) \<in> set X \<and> \<not> compile_fails run (command_of (ts ! i))"
    if i: "i < length ts" for i
  proof -
    from i len have i': "i < length (tasks l)" by simp
    have j: "job (tasks l ! i) = ts ! i"
      using jobs i' by (metis nth_map)
    from all i' have "spawns (tasks l ! i) = 1" by (simp add: list_all_length)
    with X(2) i' j have a: "command_of (ts ! i) \<in> set X" by auto
    from i' have "phase (tasks l ! i) \<in> set (map phase (tasks l))" by simp
    then obtain p where "phase (tasks l ! i) = Done (Inr p)" unfolding ph by auto
    moreover from ok i' have "task_ok run (tasks l ! i)" by (simp add: list_all_length)
    ultimately have "\<not> compile_fails run (command_of (ts ! i))"
      unfolding compile_fails_command_of using j
      by (auto simp: task_ok_def split: option.splits)
    with a show ?thesis by simp
  qed
  then show ?thesis
    unfolding dr by (simp add: list_all_length)
qed


text \<open>
  Claim C9. Whenever \<open>compile_sources\<close> returns a list of artifact paths, whatever the
  schedule of the event loop was, the list is: for each Zig file in input order its
  translated path with \<open>.o\<close> appended, then for each C file in input order its
  translated path, then the same for each C++ file. For the tasks \<open>ts\<close> that
  \<open>compile_sources\<close> makes: a returned list is the list of their artifacts in task
  order, every task's command has then been handed to the runner and none of them
  fails; if the command of some task fails, no list is returned; and if no command
  fails and there is at least one permit, \<open>compile_sources\<close> never raises and every
  schedule can be continued to one under which it returns the artifacts in task order.
\<close>

theorem compile_sources_submission_order:
  "(fst (compile_sources run cpus schedule s b zig_files c_files cpp_files opt w) = Some (Inr paths)
    \<longrightarrow> map Inr paths
        = map (\<lambda>f. map_sum id (\<lambda>p. p @ ''.o'') (fst (translate_to_build_path_zig f s b w))) zig_files
          @ map (\<lambda>f. fst (translate_to_build_path f s b w)) c_files
          @ map (\<lambda>f. fst (translate_to_build_path f s b w)) cpp_files)
   \<and> (fst (make_tasks s b zig_files c_files cpp_files opt w) = Inr ts
      \<longrightarrow> (fst (compile_sources run cpus schedule s b zig_files c_files cpp_files opt w)
             = Some (Inr paths)
           \<longrightarrow> paths = map artifact ts
              \<and> list_all
                  (\<lambda>t. command_of t
                          \<in> set (drop (length (launched w))
                                   (launched (snd (compile_sources run cpus schedule s b
                                                     zig_files c_files cpp_files opt w))))
                       \<and> \<not> compile_fails run (command_of t)) ts)
        \<and> (list_ex (\<lambda>t. compile_fails run (command_of t)) ts
           \<longrightarrow> fst (compile_sources run cpus schedule s b zig_files c_files cpp_files opt w)
               \<noteq> Some (Inr paths))
        \<and> (list_all (\<lambda>t. \<not> compile_fails run (command_of t)) ts \<and> cpus = Some k \<and> 0 < k
           \<longrightarrow> (\<forall>e. fst (compile_sources run cpus schedule s b zig_files c_files cpp_files opt w)
                     \<noteq> Some (Inl e))
              \<and> (\<exists>extra. fst (compile_sources run cpus (schedule @ extra) s b zig_files
                                 c_files cpp_files opt w)
                           = Some (Inr (map artifact ts)))))"
proof (intro conjI impI)
  assume "fst (compile_sources run cpus schedule s b zig_files c_files cpp_files opt w)
          = Some (Inr paths)"
  then show "map Inr paths
        = map (\<lambda>f. map_sum id (\<lambda>p. p @ ''.o'') (fst (translate_to_build_path_zig f s b w))) zig_files
          @ map (\<lambda>f. fst (translate_to_build_path f s b w)) c_files
          @ map (\<lambda>f. fst (translate_to_build_path f s b w)) cpp_files"
    using compile_sources_paths_of_result by blast
next
  assume mk0: "fst (make_tasks s b zig_files c_files cpp_files opt w) = Inr ts"
    and res: "fst (compile_sources run cpus schedule s b zig_files c_files cpp_files opt w)
              = Some (Inr paths)"
  from mk0 obtain w' where mk: "make_tasks s b zig_files c_files cpp_files opt w = (Inr ts, w')"
    by (cases "make_tasks s b zig_files c_files cpp_files opt w") auto
  from res obtain c where c: "cpus = Some c"
    by (cases cpus) (auto simp: compile_sources_def)
  let ?l = "run_loop run schedule (start_loop c ts w')"
  have cs: "compile_sources run cpus schedule s b zig_files c_files cpp_files opt w
            = (gather_tasks ?l, env ?l)"
    unfolding c by (rule compile_sources_eval[OF mk])
  with res have g: "gather_tasks ?l = Some (Inr paths)" by simp
  have lw: "launched w' = launched w"
    using make_tasks_Inr[OF mk] by simp
  show "paths = map artifact ts"
    by (rule gather_tasks_artifacts[OF loop_inv_run_loop g])
  show "list_all
          (\<lambda>t. command_of t
                  \<in> set (drop (length (launched w))
                           (launched (snd (compile_sources run cpus schedule s b
                                             zig_files c_files cpp_files opt w))))
               \<and> \<not> compile_fails run (command_of t)) ts"
    using returned_commands[OF g] by (simp add: cs lw)
next
  assume mk0: "fst (make_tasks s b zig_files c_files cpp_files opt w) = Inr ts"
    and bad: "list_ex (\<lambda>t. compile_fails run (command_of t)) ts"
  from mk0 obtain w' where mk: "make_tasks s b zig_files c_files cpp_files opt w = (Inr ts, w')"
    by (cases "make_tasks s b zig_files c_files cpp_files opt w") auto
  show "fst (compile_sources run cpus schedule s b zig_files c_files cpp_files opt w)
        \<noteq> Some (Inr paths)"
  proof
    assume res: "fst (compile_sources run cpus schedule s b zig_files c_files cpp_files opt w)
                 = Some (Inr paths)"
    then obtain c where c: "cpus = Some c"
      by (cases cpus) (auto simp: compile_sources_def)
    let ?l = "run_loop run schedule (start_loop c ts w')"
    have "compile_sources run cpus schedule s b zig_files c_files cpp_files opt w
            = (gather_tasks ?l, env ?l)"
      unfolding c by (rule compile_sources_eval[OF mk])
    with res have g: "gather_tasks ?l = Some (Inr paths)" by simp
    from returned_commands[OF g] have "list_all (\<lambda>t. \<not> compile_fails run (command_of t)) ts"
      by (simp add: list_all_iff)
    with bad show False by (auto simp: list_all_iff list_ex_iff)
  qed
next
  assume mk0: "fst (make_tasks s b zig_files c_files cpp_files opt w) = Inr ts"
    and h: "list_all (\<lambda>t. \<not> compile_fails run (command_of t)) ts \<and> cpus = Some k \<and> 0 < k"
  from mk0 obtain w' where mk: "make_tasks s b zig_files c_files cpp_files opt w = (Inr ts, w')"
    by (cases "make_tasks s b zig_files c_files cpp_files opt w") auto
  from h have pass: "list_all (\<lambda>t. \<not> compile_fails run (command_of t)) ts"
    and k: "cpus = Some k" "0 < k" by simp_all
  have cs: "compile_sources run cpus sched s b zig_files c_files cpp_files opt w
            = (gather_tasks (run_loop run sched (start_loop k ts w')),
               env (run_loop run sched (start_loop k ts w')))" for sched
    unfolding k(1) by (rule compile_sources_eval[OF mk])
  have open_loop: "gather_tasks (run_loop run sched (start_loop k ts w'))
                   = map_option Inr (collect (tasks (run_loop run sched (start_loop k ts w'))))"
    for sched
    using all_pass_never_raises[OF pass, of sched k w'] by (simp add: gather_tasks_def)
  show "\<forall>e. fst (compile_sources run cpus schedule s b zig_files c_files cpp_files opt w)
             \<noteq> Some (Inl e)"
    unfolding cs open_loop by auto
  from progress[OF loop_inv_run_loop[of run k ts schedule w'] k(2)] obtain extra
    where fin: "gather_tasks (run_loop run (schedule @ extra) (start_loop k ts w')) \<noteq> None"
    unfolding run_loop_append by blast
  then obtain ps where ps: "gather_tasks (run_loop run (schedule @ extra) (start_loop k ts w'))
                            = Some (Inr ps)"
    unfolding open_loop by auto
  have "ps = map artifact ts"
    by (rule gather_tasks_artifacts[OF loop_inv_run_loop ps])
  with ps show "\<exists>extra. fst (compile_sources run cpus (schedule @ extra) s b zig_files
                                 c_files cpp_files opt w)
                           = Some (Inr (map artifact ts))"
    by (intro exI[of _ extra]) (simp add: cs)
qed

lemma sample_tasks_pass:
  "list_all (\<lambda>t. \<not> compile_fails (run_fake []) (command_of t)) sample_tasks"
  "list_ex (\<lambda>t. compile_fails (run_fake [''src/b.c'']) (command_of t)) sample_tasks"
  by (simp_all add: sample_tasks_def compile_fails_def command_of_def is_compile_command_def
      run_fake_def zig_compiler_def c_compiler_def cxx_compiler_def)

text \<open>
  One file of each kind under two permits. With a runner under which everything
  succeeds the tasks finish in the order C, Zig, C++ and the list is in the order Zig,
  C, C++; with a runner under which the compiler fails on \<open>src/b.c\<close> no list is
  returned.
\<close>

theorem compile_sources_submission_order_witness:
  "fst (make_tasks ''src'' ''build'' [''src/main.zig''] [''src/b.c''] [''src/c.cpp''] [] w0)
     = Inr sample_tasks
   \<and> list_all (\<lambda>t. \<not> compile_fails (run_fake []) (command_of t)) sample_tasks
   \<and> fst (compile_sources (run_fake []) (Some 2) out_of_order ''src'' ''build''
          [''src/main.zig''] [''src/b.c''] [''src/c.cpp''] [] w0)
     = Some (Inr [''build/main.o'', ''build/b.o'', ''build/c.o''])
   \<and> map Inr [''build/main.o'', ''build/b.o'', ''build/c.o'']
     = map (\<lambda>f. map_sum id (\<lambda>p. p @ ''.o'')
                  (fst (translate_to_build_path_zig f ''src'' ''build'' w0))) [''src/main.zig'']
       @ map (\<lambda>f. fst (translate_to_build_path f ''src'' ''build'' w0)) [''src/b.c'']
       @ map (\<lambda>f. fst (translate_to_build_path f ''src'' ''build'' w0)) [''src/c.cpp'']
   \<and> [''build/main.o'', ''build/b.o'', ''build/c.o''] = map artifact sample_tasks
   \<and> (\<exists>extra. fst (compile_sources (run_fake []) (Some 2) extra ''src'' ''build''
                     [''src/main.zig''] [''src/b.c''] [''src/c.cpp''] [] w0)
                = Some (Inr (map artifact sample_tasks)))
   \<and> list_ex (\<lambda>t. compile_fails (run_fake [''src/b.c'']) (command_of t)) sample_tasks
   \<and> fst (compile_sources (run_fake [''src/b.c'']) (Some 2) out_of_order ''src'' ''build''
          [''src/main.zig''] [''src/b.c''] [''src/c.cpp''] [] w0)
     \<noteq> Some (Inr [''build/main.o'', ''build/b.o'', ''build/c.o''])"
proof -
  from sample_make have mk: "fst (make_tasks ''src'' ''build'' [''src/main.zig''] [''src/b.c'']
      [''src/c.cpp''] [] w0) = Inr sample_tasks"
    by auto
  note ok = compile_sources_submission_order [of "run_fake []" "Some 2" out_of_order "''src''" "''build''"
      "[''src/main.zig'']" "[''src/b.c'']" "[''src/c.cpp'']" "[]" w0
      "[''build/main.o'', ''build/b.o'', ''build/c.o'']" sample_tasks 2]
  note start = compile_sources_submission_order [of "run_fake []" "Some 2" "[]" "''src''" "''build''"
      "[''src/main.zig'']" "[''src/b.c'']" "[''src/c.cpp'']" "[]" w0
      "[''build/main.o'', ''build/b.o'', ''build/c.o'']" sample_tasks 2]
  note bad = compile_sources_submission_order [of "run_fake [''src/b.c'']" "Some 2" out_of_order "''src''" "''build''"
      "[''src/main.zig'']" "[''src/b.c'']" "[''src/c.cpp'']" "[]" w0
      "[''build/main.o'', ''build/b.o'', ''build/c.o'']" sample_tasks 2]
  have a: "map Inr [''build/main.o'', ''build/b.o'', ''build/c.o'']
     = map (\<lambda>f. map_sum id (\<lambda>p. p @ ''.o'')
                  (fst (translate_to_build_path_zig f ''src'' ''build'' w0))) [''src/main.zig'']
       @ map (\<lambda>f. fst (translate_to_build_path f ''src'' ''build'' w0)) [''src/b.c'']
       @ map (\<lambda>f. fst (translate_to_build_path f ''src'' ''build'' w0)) [''src/c.cpp'']"
    using ok sample_compile by blast
  have b: "[''build/main.o'', ''build/b.o'', ''build/c.o''] = map artifact sample_tasks"
    using ok mk sample_compile by blast
  have c: "\<exists>extra. fst (compile_sources (run_fake []) (Some 2) extra ''src'' ''build''
                     [''src/main.zig''] [''src/b.c''] [''src/c.cpp''] [] w0)
                = Some (Inr (map artifact sample_tasks))"
    using start mk sample_tasks_pass(1) by simp
  have d: "fst (compile_sources (run_fake [''src/b.c'']) (Some 2) out_of_order ''src'' ''build''
          [''src/main.zig''] [''src/b.c''] [''src/c.cpp''] [] w0)
     \<noteq> Some (Inr [''build/main.o'', ''build/b.o'', ''build/c.o''])"
    using bad mk sample_tasks_pass(2) by blast
  show ?thesis
    using mk sample_tasks_pass sample_compile a b c d by blast
qed

end
